theory Spec2Isabelle
  imports Main "HOL-Library.Word"
begin

unbundle bit_operations_syntax

section \<open>Machine types\<close>

type_synonym u8 = "8 word"
type_synonym u16 = "16 word"
type_synonym u32 = "32 word"
type_synonym u64 = "64 word"

text \<open>
  \<^verbatim>\<open>unsigned int bytes_read = read(...)\<close>: the \<^verbatim>\<open>ssize_t\<close> result of \<^verbatim>\<open>read\<close> is
  converted to a 32-bit unsigned value, so \<open>-1\<close> becomes \<open>2^32 - 1\<close>.
\<close>

definition to_uint :: "int \<Rightarrow> u32" where
  "to_uint r = word_of_int r"

text \<open>
  Multi-byte fields are copied from the file into host integers. The host is taken to be
  little-endian, the byte order of the gzip format.
\<close>

definition le16 :: "u8 \<Rightarrow> u8 \<Rightarrow> u16" where
  "le16 b0 b1 = ucast b0 OR push_bit 8 (ucast b1)"

definition le32 :: "u8 \<Rightarrow> u8 \<Rightarrow> u8 \<Rightarrow> u8 \<Rightarrow> u32" where
  "le32 b0 b1 b2 b3 =
     ucast b0 OR push_bit 8 (ucast b1) OR push_bit 16 (ucast b2) OR push_bit 24 (ucast b3)"

text \<open>
  An integer variable that a \<^verbatim>\<open>read\<close> was meant to fill: it has a value only when the read
  stored all of its bytes; otherwise it is still indeterminate.
\<close>

definition decode16 :: "u8 list \<Rightarrow> u16 option" where
  "decode16 bs = (case bs of [b0, b1] \<Rightarrow> Some (le16 b0 b1) | _ \<Rightarrow> None)"

definition decode32 :: "u8 list \<Rightarrow> u32 option" where
  "decode32 bs = (case bs of [b0, b1, b2, b3] \<Rightarrow> Some (le32 b0 b1 b2 b3) | _ \<Rightarrow> None)"

section \<open>The byte source: a file descriptor on a regular file\<close>

text \<open>
  \<open>BadFd\<close>: \<^verbatim>\<open>open\<close> failed and \<^verbatim>\<open>fd\<close> is \<open>-1\<close>. \<open>Open cs off\<close>: the descriptor is
  open on a file with contents \<open>cs\<close>, at file offset \<open>off\<close>. \<open>Closed\<close>: \<^verbatim>\<open>close(fd)\<close>
  has been called on the open descriptor.
\<close>

datatype fdesc = BadFd | Open "u8 list" nat | Closed

datatype whence = SEEK_CUR | SEEK_END

fun sys_open :: "u8 list option \<Rightarrow> fdesc" where
  "sys_open None = BadFd"
| "sys_open (Some cs) = Open cs 0"

text \<open>\<^verbatim>\<open>read(fd, buf, n)\<close>: the result, the bytes stored into \<^verbatim>\<open>buf\<close>, the new state.\<close>

fun sys_read :: "fdesc \<Rightarrow> nat \<Rightarrow> int \<times> u8 list \<times> fdesc" where
  "sys_read (Open cs off) n =
     (let bs = take n (drop off cs) in (int (length bs), bs, Open cs (off + length bs)))"
| "sys_read BadFd n = (- 1, [], BadFd)"
| "sys_read Closed n = (- 1, [], Closed)"

text \<open>\<^verbatim>\<open>lseek(fd, d, whence)\<close>: a negative resulting offset is refused with \<open>-1\<close>.\<close>

fun sys_lseek :: "fdesc \<Rightarrow> int \<Rightarrow> whence \<Rightarrow> int \<times> fdesc" where
  "sys_lseek (Open cs off) d w =
     (let new = (case w of SEEK_CUR \<Rightarrow> int off | SEEK_END \<Rightarrow> int (length cs)) + d
      in if new < 0 then (- 1, Open cs off) else (new, Open cs (nat new)))"
| "sys_lseek BadFd d w = (- 1, BadFd)"
| "sys_lseek Closed d w = (- 1, Closed)"

fun sys_close :: "fdesc \<Rightarrow> fdesc" where
  "sys_close (Open cs off) = Closed"
| "sys_close BadFd = BadFd"
| "sys_close Closed = Closed"

section \<open>The fixed header\<close>

definition FTEXT :: nat where "FTEXT = 0"
definition FHCRC :: nat where "FHCRC = 1"
definition FEXTRA :: nat where "FEXTRA = 2"
definition FNAME :: nat where "FNAME = 3"
definition FCOMMENT :: nat where "FCOMMENT = 4"

record gzip_header =
  id1 :: u8
  id2 :: u8
  cm :: u8
  flag :: u8
  mtime :: u32
  xfl :: u8
  os :: u8
  xlen :: u16

text \<open>\<^verbatim>\<open>sizeof(struct gzip_header)\<close>: the struct is laid out in 12 bytes without padding.\<close>

definition sizeof_gzip_header :: nat where
  "sizeof_gzip_header = 12"

text \<open>
  The struct after \<^verbatim>\<open>memset(&header, 0, ...)\<close> and a \<^verbatim>\<open>read\<close> that stored \<open>bs\<close> at its
  start: the bytes not overwritten are still zero.
\<close>

definition header_memory :: "u8 list \<Rightarrow> u8 list" where
  "header_memory bs = bs @ drop (length bs) (replicate sizeof_gzip_header 0)"

definition header_of :: "u8 list \<Rightarrow> gzip_header" where
  "header_of m =
     \<lparr> id1 = m ! 0, id2 = m ! 1, cm = m ! 2, flag = m ! 3,
       mtime = le32 (m ! 4) (m ! 5) (m ! 6) (m ! 7),
       xfl = m ! 8, os = m ! 9, xlen = le16 (m ! 10) (m ! 11) \<rparr>"

text \<open>\<^verbatim>\<open>header.flag & (bit << F)\<close> with \<^verbatim>\<open>uint8_t bit = 1\<close>.\<close>

definition flag_set :: "gzip_header \<Rightarrow> nat \<Rightarrow> bool" where
  "flag_set header f = (flag header AND push_bit f 1 \<noteq> 0)"

section \<open>Output\<close>

text \<open>
  One constructor for each \<^verbatim>\<open>printf\<close> text of the program, with the values it formats.
  The two string-reading loops print the same text when the stream ends, so they share
  \<open>TooFewFilename\<close>. \<open>CreationTime\<close> carries the raw timestamp; its formatting by
  \<^verbatim>\<open>localtime\<close> and \<^verbatim>\<open>strftime\<close> is not modelled.
\<close>

datatype event =
    TooFewBytes              \<comment> \<open>read too few bytes!\<close>
  | ValidGzip                \<comment> \<open>valid gzip file\<close>
  | InvalidGzip              \<comment> \<open>invalid gzip file\<close>
  | StdDeflate               \<comment> \<open>standard gzip compression method "deflate"\<close>
  | FlagsSet "string list"   \<comment> \<open>flags set: ...\<close>
  | CreationTime u32         \<comment> \<open>creation time: ...\<close>
  | Xfl u8                   \<comment> \<open>XFL: 0x..\<close>
  | Os string                \<comment> \<open>OS: UNIX or OS: non-UNIX\<close>
  | TooFewExtra              \<comment> \<open>read too few bytes while reading extra header!\<close>
  | ExtraField "u8 list"     \<comment> \<open>extra field: 0x.. 0x..\<close>
  | TooFewFilename           \<comment> \<open>read too few bytes while reading filename!\<close>
  | Filename "u8 list"       \<comment> \<open>filename: ...\<close>
  | Comment "u8 list"        \<comment> \<open>comment: ...\<close>
  | TooFewHcrc               \<comment> \<open>read too few bytes while reading header checksum!\<close>
  | HeaderChecksum u16       \<comment> \<open>header checksum: 0x..\<close>
  | SeekError                \<comment> \<open>error positioning file offset at last 8 bytes!\<close>
  | TooFewChecksum           \<comment> \<open>read too few bytes while reading data checksum!\<close>
  | Checksum u32             \<comment> \<open>checksum: 0x..\<close>
  | TooFewIsize              \<comment> \<open>read too few bytes while reading data size!\<close>
  | Isize u32                \<comment> \<open>isize: 0x..\<close>

text \<open>
  How a part of \<^verbatim>\<open>main\<close> ends: \<open>Exit out fd\<close> is \<^verbatim>\<open>return -1\<close> after printing \<open>out\<close>,
  leaving the descriptor in state \<open>fd\<close>; \<open>Cont x\<close> falls through to the next part;
  \<open>Undefined\<close> is behaviour that C leaves undefined (a store outside a buffer, the use of
  an indeterminate value).
\<close>

datatype 'a run = Undefined | Exit "event list" fdesc | Cont 'a

section \<open>Reading and reporting the fixed header\<close>

text \<open>
  Lines 62 to 75 of \<^verbatim>\<open>main\<close>: the header is zeroed, the file opened and 12 bytes read into
  the header; a short read closes the descriptor and returns, a wrong magic returns at once.
  \<^verbatim>\<open>bytes_read\<close> is compared with \<^verbatim>\<open>sizeof(struct gzip_header)\<close> as a \<^verbatim>\<open>size_t\<close>.
\<close>

definition read_header :: "u8 list option \<Rightarrow> (event list \<times> gzip_header \<times> fdesc) run" where
  "read_header file =
     (let fd = sys_open file;
          (r, bs, fd) = sys_read fd sizeof_gzip_header;
          bytes_read = to_uint r
      in if (ucast bytes_read :: u64) < of_nat sizeof_gzip_header
         then Exit [TooFewBytes] (sys_close fd)
         else let header = header_of (header_memory bs)
              in if id1 header = 0x1f \<and> id2 header = 0x8b
                 then Cont ([ValidGzip], header, fd)
                 else Exit [InvalidGzip] fd)"

text \<open>Lines 76 to 97: the lines printed about the fixed header.\<close>

definition flag_names :: "gzip_header \<Rightarrow> string list" where
  "flag_names header =
     (if flag_set header FTEXT then [''FTEXT''] else []) @
     (if flag_set header FHCRC then [''FHCRC''] else []) @
     (if flag_set header FEXTRA then [''FEXTRA''] else []) @
     (if flag_set header FNAME then [''FNAME''] else []) @
     (if flag_set header FCOMMENT then [''FCOMMENT''] else [])"

definition report_header :: "gzip_header \<Rightarrow> event list" where
  "report_header header =
     (if cm header = 0x8 then [StdDeflate] else []) @
     (if flag header \<noteq> 0 then [FlagsSet (flag_names header)] else []) @
     (if mtime header \<noteq> 0 then [CreationTime (mtime header)] else []) @
     [Xfl (xfl header)] @
     [Os (if os header = 0x3 then ''UNIX'' else ''non-UNIX'')]"

section \<open>The optional fields\<close>

text \<open>
  A local buffer is a list of cells; a cell that was never stored to is \<open>None\<close>.
  A store outside the buffer is undefined.
\<close>

definition store :: "u8 option list \<Rightarrow> nat \<Rightarrow> u8 \<Rightarrow> u8 option list option" where
  "store buf i v = (if i < length buf then Some (buf[i := Some v]) else None)"

text \<open>\<^verbatim>\<open>printf("%s", buf)\<close>: the bytes up to the first zero byte.\<close>

fun c_string :: "u8 option list \<Rightarrow> u8 list option" where
  "c_string [] = None"
| "c_string (None # cells) = None"
| "c_string (Some b # cells) =
     (if b = 0 then Some [] else map_option ((#) b) (c_string cells))"

text \<open>
  Lines 99 to 110. The variable-length array \<^verbatim>\<open>extra_field\<close> has \<^verbatim>\<open>header.xlen\<close> cells; with
  \<^verbatim>\<open>xlen = 0\<close> it is taken to be an empty array, and the read a read of no bytes.
\<close>

definition read_extra :: "gzip_header \<Rightarrow> fdesc \<Rightarrow> (event list \<times> fdesc) run" where
  "read_extra header fd =
     (if flag_set header FEXTRA then
        (let n = unat (xlen header);
             (r, bs, fd) = sys_read fd n;
             extra_field = map Some bs @ replicate (n - length bs) None;
             bytes_read = to_uint r
         in if bytes_read < ucast (xlen header)
            then Exit [TooFewExtra] (sys_close fd)
            else (case those extra_field of
                    None \<Rightarrow> Undefined
                  | Some xs \<Rightarrow> Cont ([ExtraField xs], fd)))
      else Cont ([], fd))"

text \<open>
  The \<^verbatim>\<open>do ... while (c != 0 && len < max)\<close> loop of the filename and of the comment:
  \<open>len\<close> is a \<^verbatim>\<open>uint8_t\<close> in the first and a \<^verbatim>\<open>uint32_t\<close> in the second.
\<close>

function read_loop ::
  "nat \<Rightarrow> fdesc \<Rightarrow> u8 option list \<Rightarrow> 'a::len word \<Rightarrow> (fdesc \<times> u8 option list \<times> 'a word) run"
where
  "read_loop maxlen fd buf len =
     (case sys_read fd 1 of (r, bs, fd') \<Rightarrow>
        if to_uint r < 1 then Exit [TooFewFilename] (sys_close fd')
        else (case bs of
                [] \<Rightarrow> Undefined
              | c # _ \<Rightarrow>
                  (case store buf (unat len) c of
                     None \<Rightarrow> Undefined
                   | Some buf' \<Rightarrow>
                       if c \<noteq> 0 \<and> unat (len + 1) < maxlen
                       then read_loop maxlen fd' buf' (len + 1)
                       else Cont (fd', buf', len + 1))))"
  by pat_completeness auto
termination
proof (relation "measure (\<lambda>(maxlen, fd, buf, len). case fd of Open cs off \<Rightarrow> length cs - off | _ \<Rightarrow> 0)")
  show "wf (measure (\<lambda>(maxlen, fd, buf, len). case fd of Open cs off \<Rightarrow> length cs - off | _ \<Rightarrow> 0))"
    by simp
next
  fix maxlen :: nat and fd :: fdesc and buf :: "u8 option list" and len :: "'a word"
    and r y bs fd' c cs buf'
  assume "(r, y) = sys_read fd 1" "(bs, fd') = y" "bs = c # cs"
  then have rd: "sys_read fd 1 = (r, c # cs, fd')"
    by (metis prod.collapse prod.inject)
  then show "((maxlen, fd', buf', len + 1), (maxlen, fd, buf, len))
      \<in> measure (\<lambda>(maxlen, fd, buf, len). case fd of Open cs off \<Rightarrow> length cs - off | _ \<Rightarrow> 0)"
  proof (cases fd)
    case (Open xs off)
    show ?thesis
    proof (cases "off < length xs")
      case True
      then have "drop off xs = xs ! off # drop (Suc off) xs"
        by (simp add: Cons_nth_drop_Suc)
      with rd Open have "fd' = Open xs (Suc off)"
        by simp
      with Open True show ?thesis
        by simp
    next
      case False
      with rd Open show ?thesis
        by simp
    qed
  qed (use rd in auto)
qed

declare read_loop.simps [simp del]

text \<open>
  Lines 112 to 131. The result of \<^verbatim>\<open>lseek\<close> is not looked at; the store to
  \<^verbatim>\<open>filename[127]\<close> follows the loop.
\<close>

definition read_filename :: "gzip_header \<Rightarrow> fdesc \<Rightarrow> (event list \<times> fdesc) run" where
  "read_filename header fd =
     (if flag_set header FNAME then
        (let fd = (if \<not> flag_set header FEXTRA then snd (sys_lseek fd (- 2) SEEK_CUR) else fd)
         in case read_loop 128 fd (replicate 128 None) (0 :: u8) of
              Undefined \<Rightarrow> Undefined
            | Exit out fd \<Rightarrow> Exit out fd
            | Cont (fd, filename, len) \<Rightarrow>
                (case store filename 127 0 of
                   None \<Rightarrow> Undefined
                 | Some filename \<Rightarrow>
                     (case c_string filename of
                        None \<Rightarrow> Undefined
                      | Some text \<Rightarrow> Cont ([Filename text], fd))))
      else Cont ([], fd))"

text \<open>
  Lines 133 to 149. \<open>bufsiz\<close> stands for the constant \<^verbatim>\<open>BUFSIZ\<close> of \<^verbatim>\<open>stdio.h\<close>, which the
  repository does not define.
\<close>

definition read_comment :: "nat \<Rightarrow> gzip_header \<Rightarrow> fdesc \<Rightarrow> (event list \<times> fdesc) run" where
  "read_comment bufsiz header fd =
     (if flag_set header FCOMMENT then
        (case read_loop bufsiz fd (replicate bufsiz None) (0 :: u32) of
           Undefined \<Rightarrow> Undefined
         | Exit out fd \<Rightarrow> Exit out fd
         | Cont (fd, comment, len) \<Rightarrow>
             (case store comment (bufsiz - 1) 0 of
                None \<Rightarrow> Undefined
              | Some comment \<Rightarrow>
                  (case c_string comment of
                     None \<Rightarrow> Undefined
                   | Some text \<Rightarrow> Cont ([Comment text], fd))))
      else Cont ([], fd))"

text \<open>Lines 151 to 160.\<close>

definition read_hcrc :: "gzip_header \<Rightarrow> fdesc \<Rightarrow> (event list \<times> fdesc) run" where
  "read_hcrc header fd =
     (if flag_set header FHCRC then
        (let (r, bs, fd) = sys_read fd 2;
             bytes_read = to_uint r
         in if bytes_read < 2
            then Exit [TooFewHcrc] (sys_close fd)
            else (case decode16 bs of
                    None \<Rightarrow> Undefined
                  | Some header_crc \<Rightarrow> Cont ([HeaderChecksum header_crc], fd)))
      else Cont ([], fd))"

text \<open>Sequencing: the events printed so far are kept when a later part returns.\<close>

fun and_then ::
  "(event list \<times> fdesc) run \<Rightarrow> (fdesc \<Rightarrow> (event list \<times> fdesc) run) \<Rightarrow> (event list \<times> fdesc) run"
where
  "and_then Undefined f = Undefined"
| "and_then (Exit out fd) f = Exit out fd"
| "and_then (Cont (out, fd)) f =
     (case f fd of
        Undefined \<Rightarrow> Undefined
      | Exit out' fd' \<Rightarrow> Exit (out @ out') fd'
      | Cont (out', fd') \<Rightarrow> Cont (out @ out', fd'))"

definition optional_fields :: "nat \<Rightarrow> gzip_header \<Rightarrow> fdesc \<Rightarrow> (event list \<times> fdesc) run" where
  "optional_fields bufsiz header fd =
     and_then (and_then (and_then (read_extra header fd)
       (read_filename header)) (read_comment bufsiz header)) (read_hcrc header)"

section \<open>The trailer\<close>

text \<open>Lines 166 to 188, up to the final \<^verbatim>\<open>close(fd)\<close>.\<close>

definition read_trailer :: "fdesc \<Rightarrow> (event list \<times> fdesc) run" where
  "read_trailer fd =
     (let (pos, fd) = sys_lseek fd (- 8) SEEK_END
      in if pos = - 1 then Exit [SeekError] (sys_close fd)
         else let (r, bs, fd) = sys_read fd 4
              in if to_uint r < 4 then Exit [TooFewChecksum] (sys_close fd)
                 else (case decode32 bs of
                         None \<Rightarrow> Undefined
                       | Some checksum \<Rightarrow>
                           (let (r, bs, fd) = sys_read fd 4
                            in if to_uint r < 4
                               then Exit [Checksum checksum, TooFewIsize] (sys_close fd)
                               else (case decode32 bs of
                                       None \<Rightarrow> Undefined
                                     | Some isize \<Rightarrow>
                                         Cont ([Checksum checksum, Isize isize], sys_close fd)))))"

section \<open>The program\<close>

text \<open>
  The program from \<^verbatim>\<open>open\<close> to its last \<^verbatim>\<open>printf\<close> before the trailer, then the whole
  of \<^verbatim>\<open>main\<close> for a given file name: \<open>file\<close> is the contents of the named file, or
  \<open>None\<close> when it cannot be opened.
\<close>

definition parse_front :: "nat \<Rightarrow> u8 list option \<Rightarrow> (event list \<times> fdesc) run" where
  "parse_front bufsiz file =
     (case read_header file of
        Undefined \<Rightarrow> Undefined
      | Exit out fd \<Rightarrow> Exit out fd
      | Cont (out, header, fd) \<Rightarrow>
          and_then (Cont (out @ report_header header, fd)) (optional_fields bufsiz header))"

record result =
  printed :: "event list"
  fd_final :: fdesc
  retval :: int

definition main :: "nat \<Rightarrow> u8 list option \<Rightarrow> result option" where
  "main bufsiz file =
     (case and_then (parse_front bufsiz file) read_trailer of
        Undefined \<Rightarrow> None
      | Exit out fd \<Rightarrow> Some \<lparr> printed = out, fd_final = fd, retval = - 1 \<rparr>
      | Cont (out, fd) \<Rightarrow> Some \<lparr> printed = out, fd_final = fd, retval = 0 \<rparr>)"

text \<open>The error kinds of the specification, read off the message printed last.\<close>

datatype outcome = Parsed | InvalidMagic | TruncatedInput | SeekOutOfRange

fun error_kind :: "event \<Rightarrow> outcome option" where
  "error_kind InvalidGzip = Some InvalidMagic"
| "error_kind TooFewBytes = Some TruncatedInput"
| "error_kind TooFewExtra = Some TruncatedInput"
| "error_kind TooFewFilename = Some TruncatedInput"
| "error_kind TooFewHcrc = Some TruncatedInput"
| "error_kind TooFewChecksum = Some TruncatedInput"
| "error_kind TooFewIsize = Some TruncatedInput"
| "error_kind SeekError = Some SeekOutOfRange"
| "error_kind _ = None"

definition outcome_of :: "result \<Rightarrow> outcome option" where
  "outcome_of r =
     (if retval r = 0 then Some Parsed
      else if printed r = [] then None else error_kind (last (printed r)))"

text \<open>
  The optional fields of the header, the flag bit that announces each, and the fields a run
  has read: each field is printed right after it has been read.
\<close>

datatype field = ExtraF | NameF | CommentF | HcrcF

fun field_flag :: "field \<Rightarrow> nat" where
  "field_flag ExtraF = FEXTRA"
| "field_flag NameF = FNAME"
| "field_flag CommentF = FCOMMENT"
| "field_flag HcrcF = FHCRC"

fun field_of :: "event \<Rightarrow> field option" where
  "field_of (ExtraField xs) = Some ExtraF"
| "field_of (Filename text) = Some NameF"
| "field_of (Comment text) = Some CommentF"
| "field_of (HeaderChecksum c) = Some HcrcF"
| "field_of _ = None"

definition fields_read :: "event list \<Rightarrow> field list" where
  "fields_read out = List.map_filter field_of out"

text \<open>
  Two runs of a part of the program, on files \<open>cs\<close> and \<open>cs'\<close>, that print the same and end the
  same way, with the descriptor at the same offset, not below \<open>q\<close>.
\<close>

definition agree ::
  "nat \<Rightarrow> u8 list \<Rightarrow> u8 list \<Rightarrow> (event list \<times> fdesc) run \<Rightarrow> (event list \<times> fdesc) run \<Rightarrow> bool"
where
  "agree q cs cs' r r' =
     (case r of
        Undefined \<Rightarrow> False
      | Exit out fd \<Rightarrow> fd = Closed \<and> r' = Exit out Closed
      | Cont (out, fd) \<Rightarrow>
          (case fd of
             Open xs off \<Rightarrow> xs = cs \<and> q \<le> off \<and> r' = Cont (out, Open cs' off)
           | _ \<Rightarrow> False))"

section \<open>Facts about the conversions and the fixed header\<close>

lemma to_uint_minus1: "to_uint (- 1) = 4294967295"
  by (simp add: to_uint_def)

lemma to_uint_less: "n < 2 ^ 32 \<Longrightarrow> k < 2 ^ 32 \<Longrightarrow> (to_uint (int n) < of_nat k) = (n < k)"
  unfolding to_uint_def
  by (simp add: word_of_nat_less_iff take_bit_nat_eq_self)

lemma too_short_iff:
  "n \<le> 12 \<Longrightarrow> ((ucast (to_uint (int n)) :: u64) < of_nat sizeof_gzip_header) = (n < 12)"
  unfolding to_uint_def sizeof_gzip_header_def
  by (simp add: unsigned_of_nat word_less_nat_alt unat_of_nat take_bit_nat_eq_self)

lemma read_header_short:
  assumes "length cs < 12"
  shows "read_header (Some cs) = Exit [TooFewBytes] Closed"
proof -
  have "length (take 12 cs) = length cs" using assms by simp
  then show ?thesis
    using assms too_short_iff[of "length cs"]
    by (simp add: read_header_def Let_def sizeof_gzip_header_def min_def)
qed

lemma read_header_long:
  assumes "12 \<le> length cs"
  shows "read_header (Some cs) =
     (if cs ! 0 = 0x1f \<and> cs ! 1 = 0x8b
      then Cont ([ValidGzip], header_of (take 12 cs), Open cs 12)
      else Exit [InvalidGzip] (Open cs 12))"
proof -
  have len: "length (take 12 cs) = 12" using assms by simp
  have mem: "header_memory (take 12 cs) = take 12 cs"
    using len by (simp add: header_memory_def sizeof_gzip_header_def del: length_take)
  have chk: "\<not> (ucast (to_uint (int (length (take 12 cs)))) :: u64) < of_nat sizeof_gzip_header"
    using too_short_iff[of 12] len by (simp del: length_take)
  have ids: "id1 (header_of (take 12 cs)) = cs ! 0" "id2 (header_of (take 12 cs)) = cs ! 1"
    by (simp_all add: header_of_def)
  show ?thesis
    using chk len
    apply (simp add: read_header_def Let_def mem ids  del: length_take)
    apply (simp add: sizeof_gzip_header_def mem ids)
    done
qed

lemma not_short_minus1: "\<not> (ucast (to_uint (- 1)) :: u64) < of_nat sizeof_gzip_header"
  by (simp add: to_uint_minus1 sizeof_gzip_header_def)

lemma read_header_None: "read_header None = Exit [InvalidGzip] BadFd"
  using not_short_minus1
  by (simp add: read_header_def Let_def header_memory_def header_of_def sizeof_gzip_header_def)

lemma main_short: "length cs < 12 \<Longrightarrow> main bufsiz (Some cs) = Some \<lparr> printed = [TooFewBytes], fd_final = Closed, retval = - 1 \<rparr>"
  by (simp add: main_def parse_front_def read_header_short)

lemma main_bad_magic: "12 \<le> length cs \<Longrightarrow> \<not> (cs ! 0 = 0x1f \<and> cs ! 1 = 0x8b) \<Longrightarrow>
   main bufsiz (Some cs) = Some \<lparr> printed = [InvalidGzip], fd_final = Open cs 12, retval = - 1 \<rparr>"
  by (auto simp: main_def parse_front_def read_header_long)

lemma main_None: "main bufsiz None = Some \<lparr> printed = [InvalidGzip], fd_final = BadFd, retval = - 1 \<rparr>"
  by (simp add: main_def parse_front_def read_header_None)


section \<open>The string-reading loop\<close>

lemma sys_read_one_Cons:
  "drop off cs = b # rest \<Longrightarrow> sys_read (Open cs off) (Suc 0) = (1, [b], Open cs (Suc off))"
  by (simp add: Let_def)

lemma sys_read_one_Nil:
  "drop off cs = [] \<Longrightarrow> sys_read (Open cs off) (Suc 0) = (0, [], Open cs off)"
  by (simp add: Let_def)

lemma drop_Suc_of_Cons: "drop off cs = b # rest \<Longrightarrow> drop (Suc off) cs = rest"
  by (metis drop_Suc list.sel(3) tl_drop)

lemma to_uint_small [simp]: "\<not> to_uint 1 < 1" "to_uint 0 < 1"
  by (simp_all add: to_uint_def)

lemma unat_succ_bounded:
  fixes len :: "'a::len word"
  assumes "unat len < maxlen" "maxlen < 2 ^ LENGTH('a)"
  shows "unat (len + 1) = Suc (unat len)"
proof -
  have "unat len + unat (1 :: 'a word) < 2 ^ LENGTH('a)"
    using assms by simp
  then have "unat (len + 1) = unat len + unat (1 :: 'a word)"
    by (simp only: unat_add_lem [THEN iffD1])
  then show ?thesis by simp
qed

lemma read_loop_Open:
  fixes len :: "'a::len word"
  assumes "length buf = maxlen" "unat len < maxlen" "maxlen < 2 ^ LENGTH('a)"
  shows "read_loop maxlen (Open cs off) buf len =
    (let rest = drop off cs; l = unat len; z = length (takeWhile (\<lambda>b. b \<noteq> 0) rest) in
     if z < length rest \<and> l + z < maxlen then
        Cont (Open cs (off + z + 1),
              take l buf @ map Some (take (z + 1) rest) @ drop (l + z + 1) buf,
              len + of_nat (z + 1))
     else if maxlen - l \<le> length rest then
        Cont (Open cs (off + (maxlen - l)),
              take l buf @ map Some (take (maxlen - l) rest),
              len + of_nat (maxlen - l))
     else Exit [TooFewFilename] Closed)"
  using assms
proof (induction rest \<equiv> "drop off cs" arbitrary: off buf len)
  case Nil
  then have rd: "sys_read (Open cs off) (Suc 0) = (0, [], Open cs off)"
    by (simp add: sys_read_one_Nil)
  have "read_loop maxlen (Open cs off) buf len = Exit [TooFewFilename] Closed"
    by (subst read_loop.simps) (simp add: rd to_uint_def del: sys_read.simps)
  moreover have "drop off cs = []" using Nil by simp
  ultimately show ?case
    using Nil.prems by (simp add: Let_def)
next
  case (Cons b rest')
  let ?l = "unat len"
  have dr: "drop off cs = b # rest'" using Cons.hyps(2) by simp
  have dr': "rest' = drop (Suc off) cs" using dr by (simp add: drop_Suc_of_Cons)
  have rd: "sys_read (Open cs off) (Suc 0) = (1, [b], Open cs (Suc off))"
    using dr by (rule sys_read_one_Cons)
  have lb: "?l < length buf" using Cons.prems by simp
  have st: "store buf ?l b = Some (buf[?l := Some b])"
    using lb by (simp add: store_def)
  have su: "unat (len + 1) = Suc ?l"
    using Cons.prems by (intro unat_succ_bounded)
  have step: "read_loop maxlen (Open cs off) buf len =
      (if b \<noteq> 0 \<and> Suc ?l < maxlen
       then read_loop maxlen (Open cs (Suc off)) (buf[?l := Some b]) (len + 1)
       else Cont (Open cs (Suc off), buf[?l := Some b], len + 1))"
    by (subst read_loop.simps) (simp add: rd st su to_uint_def del: sys_read.simps)
  have upd: "buf[?l := Some b] = take ?l buf @ Some b # drop (Suc ?l) buf"
    using lb by (rule upd_conv_take_nth_drop)
  show ?case
  proof (cases "b = 0")
    case True
    then show ?thesis
      using step dr upd Cons.prems by (simp add: Let_def)
  next
    case nz: False
    show ?thesis
    proof (cases "Suc ?l < maxlen")
      case True
      have ih: "read_loop maxlen (Open cs (Suc off)) (buf[?l := Some b]) (len + 1) =
         (let rest = drop (Suc off) cs; l = unat (len + 1); z = length (takeWhile (\<lambda>b. b \<noteq> 0) rest) in
     if z < length rest \<and> l + z < maxlen then
        Cont (Open cs (Suc off + z + 1),
              take l (buf[?l := Some b]) @ map Some (take (z + 1) rest) @ drop (l + z + 1) (buf[?l := Some b]),
              (len + 1) + of_nat (z + 1))
     else if maxlen - l \<le> length rest then
        Cont (Open cs (Suc off + (maxlen - l)),
              take l (buf[?l := Some b]) @ map Some (take (maxlen - l) rest),
              (len + 1) + of_nat (maxlen - l))
     else Exit [TooFewFilename] Closed)"
        using Cons.prems True su by (intro Cons.hyps(1) dr') simp_all
      have t1: "take (Suc ?l) (buf[?l := Some b]) = take ?l buf @ [Some b]"
        using lb by (simp add: take_Suc_conv_app_nth)
      have t2: "\<And>k. drop (Suc ?l + k) (buf[?l := Some b]) = drop (Suc ?l + k) buf"
        by simp
      have sub: "maxlen - ?l = Suc (maxlen - Suc ?l)"
        using True by simp
      have w: "\<And>k. len + 1 + of_nat k = len + of_nat (Suc k)"
        by simp
      show ?thesis
        using nz True
        apply (simp only: step ih su if_True simp_thms dr dr'[symmetric] Let_def)
        apply (simp add: t1 sub del: of_nat_Suc of_nat_add)
        apply (simp add: Suc_diff_Suc)
        done
    next
      case False
      then have eq: "maxlen = Suc ?l" using Cons.prems by simp
      have "drop (Suc ?l) buf = []" using eq Cons.prems by simp
      then show ?thesis
        using nz False step dr upd eq by (simp add: Let_def)
    qed
  qed
qed


lemma c_string_terminated:
  "0 \<notin> set xs \<Longrightarrow> c_string (map Some xs @ Some 0 # cells) = Some xs"
  by (induction xs) auto

lemma c_string_terminated_update:
  assumes "0 \<notin> set xs" "length xs \<le> n"
  shows "c_string ((map Some xs @ Some 0 # cells)[n := Some 0]) = Some xs"
proof -
  have "(Some 0 # cells)[n - length xs := Some (0::u8)] = Some 0 # tl ((Some 0 # cells)[n - length xs := Some 0])"
    by (cases "n - length xs") simp_all
  then have "(map Some xs @ Some 0 # cells)[n := Some 0] =
      map Some xs @ Some 0 # tl ((Some 0 # cells)[n - length xs := Some 0])"
    using assms(2) by (simp add: list_update_append)
  then obtain cells' where "(map Some xs @ Some 0 # cells)[n := Some 0] = map Some xs @ Some 0 # cells'"
    by blast
  then show ?thesis
    by (simp only: c_string_terminated[OF assms(1)])
qed

lemma take_takeWhile_zero:
  assumes "z = length (takeWhile (\<lambda>b. b \<noteq> (0::u8)) rest)"
  shows "n \<le> z \<Longrightarrow> 0 \<notin> set (take n rest)"
proof -
  assume "n \<le> z"
  then have "take n rest = take n (takeWhile (\<lambda>b. b \<noteq> 0) rest)"
    using assms by (metis min.absorb1 takeWhile_eq_take take_take)
  then show ?thesis
    by (metis in_set_takeD set_takeWhileD)
qed

lemma take_Suc_takeWhile_zero:
  assumes "z = length (takeWhile (\<lambda>b. b \<noteq> (0::u8)) rest)" "z < length rest"
  shows "take (Suc z) rest = take z rest @ [0]"
proof -
  have "\<not> (rest ! z \<noteq> 0)"
    using assms nth_length_takeWhile[of "\<lambda>b. b \<noteq> 0" rest] by simp
  then show ?thesis
    using assms(2) by (simp add: take_Suc_conv_app_nth)
qed

lemma string_stage:
  assumes "0 < maxlen" "maxlen < 2 ^ LENGTH('a::len)"
  shows "(case read_loop maxlen (Open cs off) (replicate maxlen None) (0 :: 'a word) of
            Undefined \<Rightarrow> Undefined
          | Exit out fd \<Rightarrow> Exit out fd
          | Cont (fd, buf, len) \<Rightarrow>
              (case store buf (maxlen - 1) 0 of
                 None \<Rightarrow> Undefined
               | Some buf \<Rightarrow>
                   (case c_string buf of
                      None \<Rightarrow> Undefined
                    | Some text \<Rightarrow> Cont ([mk text], fd)))) =
    (let rest = drop off cs; z = length (takeWhile (\<lambda>b. b \<noteq> 0) rest) in
       if z < length rest \<and> z < maxlen then Cont ([mk (take z rest)], Open cs (off + z + 1))
       else if maxlen \<le> length rest then Cont ([mk (take (maxlen - 1) rest)], Open cs (off + maxlen))
       else Exit [TooFewFilename] Closed)"
proof -
  define rest where "rest = drop off cs"
  define z where "z = length (takeWhile (\<lambda>b. b \<noteq> 0) rest)"
  have loop: "read_loop maxlen (Open cs off) (replicate maxlen None) (0 :: 'a word) =
     (if z < length rest \<and> z < maxlen then
        Cont (Open cs (off + z + 1),
              map Some (take (z + 1) rest) @ replicate (maxlen - (z + 1)) None,
              of_nat (z + 1))
     else if maxlen \<le> length rest then
        Cont (Open cs (off + maxlen), map Some (take maxlen rest), of_nat maxlen)
     else Exit [TooFewFilename] Closed)"
    using read_loop_Open[of "replicate maxlen None" maxlen "0 :: 'a word" cs off] assms
    by (simp add: Let_def rest_def z_def)
  consider (found) "z < length rest" "z < maxlen"
    | (full) "\<not> (z < length rest \<and> z < maxlen)" "maxlen \<le> length rest"
    | (short) "\<not> (z < length rest \<and> z < maxlen)" "\<not> maxlen \<le> length rest"
    by blast
  then have "(case read_loop maxlen (Open cs off) (replicate maxlen None) (0 :: 'a word) of
            Undefined \<Rightarrow> Undefined
          | Exit out fd \<Rightarrow> Exit out fd
          | Cont (fd, buf, len) \<Rightarrow>
              (case store buf (maxlen - 1) 0 of
                 None \<Rightarrow> Undefined
               | Some buf \<Rightarrow>
                   (case c_string buf of
                      None \<Rightarrow> Undefined
                    | Some text \<Rightarrow> Cont ([mk text], fd)))) =
       (if z < length rest \<and> z < maxlen then Cont ([mk (take z rest)], Open cs (off + z + 1))
       else if maxlen \<le> length rest then Cont ([mk (take (maxlen - 1) rest)], Open cs (off + maxlen))
       else Exit [TooFewFilename] Closed)"
  proof cases
    case found
    have nz: "0 \<notin> set (take z rest)"
      using take_takeWhile_zero[OF z_def, of z] by simp
    have tk: "take (Suc z) rest = take z rest @ [0]"
      using z_def found(1) by (rule take_Suc_takeWhile_zero)
    have lz: "length (take z rest) = z"
      using found(1) by simp
    have cs: "c_string ((map Some (take z rest) @ Some 0 # replicate (maxlen - (z + 1)) None)[maxlen - 1 := Some 0])
        = Some (take z rest)"
      using nz found(2) lz by (intro c_string_terminated_update) simp_all
    show ?thesis
      using found cs by (simp add: loop tk store_def)
  next
    case full
    then have zm: "maxlen \<le> z"
      by auto
    have nz: "0 \<notin> set (take (maxlen - 1) rest)"
      using take_takeWhile_zero[OF z_def, of "maxlen - 1"] zm by simp
    have "take maxlen rest = take (maxlen - 1) rest @ [rest ! (maxlen - 1)]"
      using full(2) assms(1) take_Suc_conv_app_nth[of "maxlen - 1" rest] by simp
    then have "(map Some (take maxlen rest))[maxlen - 1 := Some 0] =
       map Some (take (maxlen - 1) rest) @ [Some 0]"
      using full(2) by (simp add: list_update_append)
    then have cs: "c_string ((map Some (take maxlen rest))[maxlen - 1 := Some 0]) = Some (take (maxlen - 1) rest)"
      using c_string_terminated[OF nz, of "[]"] by simp
    have lt: "maxlen - 1 < length rest"
      using assms(1) full(2) by simp
    show ?thesis
      using cs lt assms(1)
      by (simp only: loop full(1) full(2) if_True if_False run.case prod.case)
        (simp add: store_def)
  next
    case short
    then show ?thesis
      by (simp add: loop)
  qed
  then show ?thesis
    by (simp add: Let_def rest_def z_def)
qed

lemma retreat_Open:
  "snd (sys_lseek (Open cs off) (- 2) SEEK_CUR) = Open cs (if 2 \<le> off then off - 2 else off)"
  by (auto simp: Let_def nat_diff_distrib')

lemma read_filename_Open:
  assumes "flag_set header FNAME"
  shows "read_filename header (Open cs off) =
    (let p = (if \<not> flag_set header FEXTRA \<and> 2 \<le> off then off - 2 else off);
         rest = drop p cs;
         z = length (takeWhile (\<lambda>b. b \<noteq> 0) rest)
     in if z < length rest \<and> z < 128 then Cont ([Filename (take z rest)], Open cs (p + z + 1))
        else if 128 \<le> length rest then Cont ([Filename (take 127 rest)], Open cs (p + 128))
        else Exit [TooFewFilename] Closed)"
proof -
  have one_less: "(128 :: nat) - 1 = 127"
    by simp
  define p where "p = (if \<not> flag_set header FEXTRA \<and> 2 \<le> off then off - 2 else off)"
  have fd: "(if \<not> flag_set header FEXTRA then snd (sys_lseek (Open cs off) (- 2) SEEK_CUR)
             else Open cs off) = Open cs p"
    by (simp only: retreat_Open p_def) simp
  have "read_filename header (Open cs off) =
     (case read_loop 128 (Open cs p) (replicate 128 None) (0 :: u8) of
              Undefined \<Rightarrow> Undefined
            | Exit out fd \<Rightarrow> Exit out fd
            | Cont (fd, filename, len) \<Rightarrow>
                (case store filename 127 0 of
                   None \<Rightarrow> Undefined
                 | Some filename \<Rightarrow>
                     (case c_string filename of
                        None \<Rightarrow> Undefined
                      | Some text \<Rightarrow> Cont ([Filename text], fd))))"
    using assms by (simp only: read_filename_def fd Let_def if_True)
  also have "\<dots> = (let rest = drop p cs; z = length (takeWhile (\<lambda>b. b \<noteq> 0) rest) in
       if z < length rest \<and> z < 128 then Cont ([Filename (take z rest)], Open cs (p + z + 1))
       else if 128 \<le> length rest then Cont ([Filename (take 127 rest)], Open cs (p + 128))
       else Exit [TooFewFilename] Closed)"
    by (rule string_stage [where maxlen = 128, unfolded one_less]) simp_all
  finally show ?thesis
    by (simp add: Let_def p_def)
qed

lemma read_comment_Open:
  assumes "flag_set header FCOMMENT" "0 < bufsiz" "bufsiz < 2 ^ 32"
  shows "read_comment bufsiz header (Open cs off) =
    (let rest = drop off cs;
         z = length (takeWhile (\<lambda>b. b \<noteq> 0) rest)
     in if z < length rest \<and> z < bufsiz then Cont ([Comment (take z rest)], Open cs (off + z + 1))
        else if bufsiz \<le> length rest then Cont ([Comment (take (bufsiz - 1) rest)], Open cs (off + bufsiz))
        else Exit [TooFewFilename] Closed)"
proof -
  have "read_comment bufsiz header (Open cs off) =
     (case read_loop bufsiz (Open cs off) (replicate bufsiz None) (0 :: u32) of
           Undefined \<Rightarrow> Undefined
         | Exit out fd \<Rightarrow> Exit out fd
         | Cont (fd, comment, len) \<Rightarrow>
             (case store comment (bufsiz - 1) 0 of
                None \<Rightarrow> Undefined
              | Some comment \<Rightarrow>
                  (case c_string comment of
                     None \<Rightarrow> Undefined
                   | Some text \<Rightarrow> Cont ([Comment text], fd))))"
    using assms(1) by (simp only: read_comment_def if_True)
  also have "\<dots> = (let rest = drop off cs; z = length (takeWhile (\<lambda>b. b \<noteq> 0) rest) in
       if z < length rest \<and> z < bufsiz then Cont ([Comment (take z rest)], Open cs (off + z + 1))
       else if bufsiz \<le> length rest then Cont ([Comment (take (bufsiz - 1) rest)], Open cs (off + bufsiz))
       else Exit [TooFewFilename] Closed)"
    using assms(2,3) by (intro string_stage) simp_all
  finally show ?thesis .
qed

lemma no_zero_takeWhile:
  assumes "n \<le> length rest" "(0::u8) \<notin> set (take n rest)"
  shows "\<not> length (takeWhile (\<lambda>b. b \<noteq> 0) rest) < n"
proof
  let ?z = "length (takeWhile (\<lambda>b. b \<noteq> 0) rest)"
  assume a: "?z < n"
  then have "?z < length rest"
    using assms(1) by simp
  then have "rest ! ?z = 0"
    using nth_length_takeWhile[of "\<lambda>b. b \<noteq> 0" rest] by simp
  moreover have "rest ! ?z \<in> set (take n rest)"
    using a \<open>?z < length rest\<close> by (metis in_set_conv_nth length_take min_less_iff_conj nth_take)
  ultimately show False
    using assms(2) by simp
qed

lemma read_loop_fresh:
  assumes "0 < maxlen" "maxlen < 2 ^ LENGTH('a::len)"
  shows "read_loop maxlen (Open cs off) (replicate maxlen None) (0 :: 'a word) =
     (let rest = drop off cs; z = length (takeWhile (\<lambda>b. b \<noteq> 0) rest) in
      if z < length rest \<and> z < maxlen then
        Cont (Open cs (off + z + 1),
              map Some (take (z + 1) rest) @ replicate (maxlen - (z + 1)) None,
              of_nat (z + 1))
      else if maxlen \<le> length rest then
        Cont (Open cs (off + maxlen), map Some (take maxlen rest), of_nat maxlen)
      else Exit [TooFewFilename] Closed)"
  using read_loop_Open[of "replicate maxlen None" maxlen "0 :: 'a word" cs off] assms
  by (simp add: Let_def)

lemma read_loop_in_bounds:
  assumes "0 < maxlen" "maxlen < 2 ^ LENGTH('a::len)"
  shows "read_loop maxlen (Open cs off) (replicate maxlen None) (0 :: 'a word) \<noteq> Undefined \<and>
    (\<forall>fd buf len. read_loop maxlen (Open cs off) (replicate maxlen None) (0 :: 'a word) = Cont (fd, buf, len)
        \<longrightarrow> length buf = maxlen \<and> unat len \<le> maxlen)"
proof -
  have u: "\<And>k. k \<le> maxlen \<Longrightarrow> unat (of_nat k :: 'a word) = k"
    using assms(2) by (simp add: unat_of_nat)
  have u': "\<And>k. k < maxlen \<Longrightarrow> unat (1 + of_nat k :: 'a word) = Suc k"
    using u by (metis Suc_leI of_nat_Suc)
  show ?thesis
    unfolding read_loop_fresh[OF assms]
    by (auto simp: Let_def u u')
qed

lemma read_loop_full:
  assumes "0 < maxlen" "maxlen < 2 ^ LENGTH('a::len)"
    and "maxlen \<le> length (drop off cs)" "0 \<notin> set (take maxlen (drop off cs))"
  shows "read_loop maxlen (Open cs off) (replicate maxlen None) (0 :: 'a word) =
      Cont (Open cs (off + maxlen), map Some (take maxlen (drop off cs)), of_nat maxlen) \<and>
    store (map Some (take maxlen (drop off cs))) (maxlen - 1) 0 =
      Some (map Some (take (maxlen - 1) (drop off cs)) @ [Some 0]) \<and>
    c_string (map Some (take (maxlen - 1) (drop off cs)) @ [Some 0]) =
      Some (take (maxlen - 1) (drop off cs))"
proof -
  define rest where "rest = drop off cs"
  define z where "z = length (takeWhile (\<lambda>b. b \<noteq> 0) rest)"
  have zm: "\<not> (z < length rest \<and> z < maxlen)"
    using no_zero_takeWhile[of maxlen rest] assms(3,4) by (simp add: rest_def z_def)
  have l: "read_loop maxlen (Open cs off) (replicate maxlen None) (0 :: 'a word) =
      Cont (Open cs (off + maxlen), map Some (take maxlen rest), of_nat maxlen)"
    using zm assms(3)
    by (simp only: read_loop_fresh[OF assms(1,2)] Let_def rest_def[symmetric] z_def[symmetric] if_False if_True)
  have tk: "take maxlen rest = take (maxlen - 1) rest @ [rest ! (maxlen - 1)]"
    using assms(1,3) take_Suc_conv_app_nth[of "maxlen - 1" rest] by (simp add: rest_def)
  have len: "length (take (maxlen - 1) rest) = maxlen - 1"
    using assms(3) by (simp add: rest_def)
  have "(map Some (take maxlen rest))[maxlen - 1 := Some 0] =
      (map Some (take (maxlen - 1) rest) @ [Some (rest ! (maxlen - 1))])[maxlen - 1 := Some 0]"
    by (subst tk) simp
  also have "\<dots> = map Some (take (maxlen - 1) rest) @ [Some 0]"
    using len by (simp add: list_update_append del: length_take)
  finally have s: "store (map Some (take maxlen rest)) (maxlen - 1) 0 =
      Some (map Some (take (maxlen - 1) rest) @ [Some 0])"
    using assms(1,3) by (simp add: store_def rest_def)
  have "0 \<notin> set (take (maxlen - 1) rest)"
    using assms(4) tk by (metis Un_iff rest_def set_append)
  then have c: "c_string (map Some (take (maxlen - 1) rest) @ [Some 0]) = Some (take (maxlen - 1) rest)"
    by (rule c_string_terminated)
  show ?thesis
    using l s c by (simp only: rest_def simp_thms)
qed

section \<open>The branches of the optional fields and the trailer\<close>

lemma read_loop_Cont_Open:
  "read_loop m fd buf len = Cont (fd', buf', len') \<Longrightarrow> fd = Open cs off \<Longrightarrow> \<exists>off'. fd' = Open cs off'"
proof (induction m fd buf len arbitrary: off rule: read_loop.induct)
  case (1 maxlen fd buf len)
  obtain bs where rd: "sys_read fd 1 = (int (length bs), bs, Open cs (off + length bs))"
    using "1.prems"(2) by (simp add: Let_def)
  show ?case
  proof (cases bs)
    case Nil
    then show ?thesis
      using "1.prems"(1) rd by (subst (asm) read_loop.simps) (simp split: if_splits)
  next
    case (Cons c bs')
    show ?thesis
    proof (cases "store buf (unat len) c")
      case None
      then show ?thesis
        using "1.prems"(1) rd Cons by (subst (asm) read_loop.simps) (simp split: if_splits)
    next
      case (Some b')
      show ?thesis
      proof (cases "c \<noteq> 0 \<and> unat (len + 1) < maxlen")
        case True
        have nf: "\<not> to_uint (int (length bs)) < 1"
          using "1.prems"(1) rd Cons Some by (subst (asm) read_loop.simps) (simp split: if_splits)
        have "read_loop maxlen (Open cs (off + length bs)) b' (len + 1) = Cont (fd', buf', len')"
          using "1.prems"(1) rd Cons Some True nf by (subst (asm) read_loop.simps) simp
        then show ?thesis
          by (rule "1.IH"[OF rd[symmetric] refl nf Cons Some True _ refl])
      next
        case False
        then show ?thesis
          using "1.prems"(1) rd Cons Some by (subst (asm) read_loop.simps) (auto split: if_splits)
      qed
    qed
  qed
qed

lemma read_loop_Exit_Closed:
  "read_loop m fd buf len = Exit out fd' \<Longrightarrow> fd = Open cs off \<Longrightarrow> fd' = Closed \<and> out = [TooFewFilename]"
proof (induction m fd buf len arbitrary: off rule: read_loop.induct)
  case (1 maxlen fd buf len)
  obtain bs where rd: "sys_read fd 1 = (int (length bs), bs, Open cs (off + length bs))"
    using "1.prems"(2) by (simp add: Let_def)
  show ?case
  proof (cases bs)
    case Nil
    then show ?thesis
      using "1.prems"(1) rd by (subst (asm) read_loop.simps) (auto split: if_splits)
  next
    case (Cons c bs')
    show ?thesis
    proof (cases "store buf (unat len) c")
      case None
      then show ?thesis
        using "1.prems"(1) rd Cons by (subst (asm) read_loop.simps) (auto split: if_splits)
    next
      case (Some b')
      show ?thesis
      proof (cases "c \<noteq> 0 \<and> unat (len + 1) < maxlen")
        case True
        show ?thesis
        proof (cases "to_uint (int (length bs)) < 1")
          case short: True
          then show ?thesis
            using "1.prems"(1) rd by (subst (asm) read_loop.simps) auto
        next
          case nf: False
          have "read_loop maxlen (Open cs (off + length bs)) b' (len + 1) = Exit out fd'"
            using "1.prems"(1) rd Cons Some True nf by (subst (asm) read_loop.simps) simp
          then show ?thesis
            by (rule "1.IH"[OF rd[symmetric] refl nf Cons Some True _ refl])
        qed
      next
        case False
        then show ?thesis
          using "1.prems"(1) rd Cons Some by (subst (asm) read_loop.simps) (auto split: if_splits)
      qed
    qed
  qed
qed

lemma those_map_Some: "those (map Some xs) = Some xs"
  by (induction xs) simp_all

lemma to_uint_nat_less:
  "n \<le> unat (w :: u16) \<Longrightarrow> (to_uint (int n) < ucast w) = (n < unat w)"
proof -
  assume a: "n \<le> unat w"
  have "unat w < 2 ^ 16"
    using unsigned_less[of w, where 'a = nat] by simp
  then have b: "unat w < 2 ^ 32" "n < 2 ^ 32"
    using a by simp_all
  have "(ucast w :: u32) = of_nat (unat w)"
    by simp
  then show ?thesis
    using to_uint_less[OF b(2) b(1)] by simp
qed

lemma read_extra_Open:
  "read_extra header (Open cs off) =
     (if flag_set header FEXTRA then
        (if length (drop off cs) < unat (xlen header) then Exit [TooFewExtra] Closed
         else Cont ([ExtraField (take (unat (xlen header)) (drop off cs))],
                    Open cs (off + unat (xlen header))))
      else Cont ([], Open cs off))"
proof (cases "flag_set header FEXTRA")
  case False
  then show ?thesis by (simp add: read_extra_def)
next
  case True
  let ?n = "unat (xlen header)"
  let ?bs = "take ?n (drop off cs)"
  have le: "length ?bs \<le> ?n" by simp
  have chk: "(to_uint (int (length ?bs)) < ucast (xlen header)) = (length ?bs < ?n)"
    using le by (rule to_uint_nat_less)
  show ?thesis
  proof (cases "length (drop off cs) < ?n")
    case short: True
    then have "length ?bs < ?n" by simp
    then show ?thesis
      using True short chk by (simp add: read_extra_def Let_def del: length_take length_drop)
  next
    case long: False
    then have l: "length ?bs = ?n" by simp
    then have "\<not> length ?bs < ?n" by simp
    then show ?thesis
      using True long chk l by (simp add: read_extra_def Let_def those_map_Some del: length_take length_drop)
  qed
qed

lemma to_uint_less_numeral:
  "n \<le> 4 \<Longrightarrow> (to_uint (int n) < 2) = (n < 2)" "n \<le> 4 \<Longrightarrow> (to_uint (int n) < 4) = (n < 4)"
  using to_uint_less[of n 2] to_uint_less[of n 4] by simp_all

lemma read_hcrc_Open:
  "read_hcrc header (Open cs off) =
     (if flag_set header FHCRC then
        (if length (drop off cs) < 2 then Exit [TooFewHcrc] Closed
         else Cont ([HeaderChecksum (le16 (cs ! off) (cs ! (off + 1)))], Open cs (off + 2)))
      else Cont ([], Open cs off))"
proof (cases "flag_set header FHCRC")
  case False
  then show ?thesis by (simp add: read_hcrc_def)
next
  case True
  show ?thesis
  proof (cases "length (drop off cs) < 2")
    case short: True
    then have "length (take 2 (drop off cs)) < 2" by simp
    then have "to_uint (int (length (take 2 (drop off cs)))) < 2"
      by (simp add: to_uint_less_numeral del: length_take length_drop)
    then show ?thesis
      using True short by (simp add: read_hcrc_def Let_def del: length_take length_drop)
  next
    case long: False
    then have "off < length cs" "Suc off < length cs"
      by simp_all
    then have "drop off cs = cs ! off # cs ! Suc off # drop (Suc (Suc off)) cs"
      by (simp add: Cons_nth_drop_Suc)
    then have "take 2 (drop off cs) = [cs ! off, cs ! (off + 1)]"
      by simp
    then show ?thesis
      using True long by (simp add: read_hcrc_def Let_def decode16_def to_uint_def)
  qed
qed

lemma read_trailer_Open:
  assumes "drop (length cs - 8) cs = [b0, b1, b2, b3, b4, b5, b6, b7]"
  shows "read_trailer (Open cs off) =
     Cont ([Checksum (le32 b0 b1 b2 b3), Isize (le32 b4 b5 b6 b7)], Closed)"
proof -
  have len: "8 \<le> length cs"
  proof -
    have "length (drop (length cs - 8) cs) = 8"
      using assms by simp
    then show ?thesis
      by simp
  qed
  have sk: "sys_lseek (Open cs off) (- 8) SEEK_END = (int (length cs) - 8, Open cs (length cs - 8))"
    using len by (simp add: Let_def nat_diff_distrib')
  have ne: "int (length cs) - 8 \<noteq> - 1"
    using len by simp
  have r1: "sys_read (Open cs (length cs - 8)) 4 = (4, [b0, b1, b2, b3], Open cs (length cs - 8 + 4))"
    using assms by (simp add: Let_def)
  have "drop (length cs - 8 + 4) cs = drop 4 (drop (length cs - 8) cs)"
    by (simp add: add.commute)
  then have r2: "sys_read (Open cs (length cs - 8 + 4)) 4 = (4, [b4, b5, b6, b7], Open cs (length cs - 8 + 4 + 4))"
    using assms by (simp add: Let_def del: drop_drop)
  show ?thesis
    using ne by (simp add: read_trailer_def sk r1 r2 decode32_def to_uint_def del: sys_read.simps sys_lseek.simps)
qed

lemma last_eight:
  assumes "8 \<le> length (cs :: 'a list)"
  shows "\<exists>b0 b1 b2 b3 b4 b5 b6 b7. drop (length cs - 8) cs = [b0, b1, b2, b3, b4, b5, b6, b7]"
proof -
  have "\<And>xs :: 'a list. length xs = 8 \<Longrightarrow> \<exists>b0 b1 b2 b3 b4 b5 b6 b7. xs = [b0, b1, b2, b3, b4, b5, b6, b7]"
    by (auto simp: eval_nat_numeral length_Suc_conv)
  moreover have "length (drop (length cs - 8) cs) = 8"
    using assms by simp
  ultimately show ?thesis
    by blast
qed

lemma fields_read_simps [simp]:
  "fields_read [] = []"
  "fields_read (e # es) = (case field_of e of None \<Rightarrow> fields_read es | Some f \<Rightarrow> f # fields_read es)"
  "fields_read (xs @ ys) = fields_read xs @ fields_read ys"
  by (simp_all add: fields_read_def map_filter_def split: option.splits)

lemma and_then_Cont:
  assumes "and_then r f = Cont (out, fd')"
  shows "\<exists>o1 fd1 o2. r = Cont (o1, fd1) \<and> f fd1 = Cont (o2, fd') \<and> out = o1 @ o2"
proof (cases r)
  case (Cont p)
  then show ?thesis
    using assms by (cases p) (auto split: run.splits)
qed (use assms in auto)

lemma and_then_Exit:
  assumes "and_then r f = Exit out fd'"
  shows "r = Exit out fd' \<or> (\<exists>o1 fd1 o2. r = Cont (o1, fd1) \<and> f fd1 = Exit o2 fd' \<and> out = o1 @ o2)"
proof (cases r)
  case (Cont p)
  then show ?thesis
    using assms by (cases p) (auto split: run.splits)
qed (use assms in auto)

lemma read_extra_shape:
  "read_extra header (Open cs off) = Exit [TooFewExtra] Closed \<and> flag_set header FEXTRA \<or>
   (\<exists>xs off'. read_extra header (Open cs off) = Cont ([ExtraField xs], Open cs off') \<and> flag_set header FEXTRA) \<or>
   read_extra header (Open cs off) = Cont ([], Open cs off) \<and> \<not> flag_set header FEXTRA"
  by (simp add: read_extra_Open)

lemma read_hcrc_shape:
  "read_hcrc header (Open cs off) = Exit [TooFewHcrc] Closed \<and> flag_set header FHCRC \<or>
   (\<exists>c off'. read_hcrc header (Open cs off) = Cont ([HeaderChecksum c], Open cs off') \<and> flag_set header FHCRC) \<or>
   read_hcrc header (Open cs off) = Cont ([], Open cs off) \<and> \<not> flag_set header FHCRC"
  by (simp add: read_hcrc_Open)

lemma read_filename_shape:
  "read_filename header (Open cs off) = Exit [TooFewFilename] Closed \<and> flag_set header FNAME \<or>
   (\<exists>text off'. read_filename header (Open cs off) = Cont ([Filename text], Open cs off') \<and> flag_set header FNAME) \<or>
   read_filename header (Open cs off) = Cont ([], Open cs off) \<and> \<not> flag_set header FNAME"
proof (cases "flag_set header FNAME")
  case True
  then show ?thesis
    by (simp add: read_filename_Open Let_def)
next
  case False
  then show ?thesis
    by (simp add: read_filename_def)
qed

lemma read_comment_shape:
  "read_comment bufsiz header (Open cs off) = Undefined \<and> flag_set header FCOMMENT \<or>
   read_comment bufsiz header (Open cs off) = Exit [TooFewFilename] Closed \<and> flag_set header FCOMMENT \<or>
   (\<exists>text off'. read_comment bufsiz header (Open cs off) = Cont ([Comment text], Open cs off') \<and> flag_set header FCOMMENT) \<or>
   read_comment bufsiz header (Open cs off) = Cont ([], Open cs off) \<and> \<not> flag_set header FCOMMENT"
proof (cases "flag_set header FCOMMENT")
  case False
  then show ?thesis
    by (simp add: read_comment_def)
next
  case True
  show ?thesis
  proof (cases "read_loop bufsiz (Open cs off) (replicate bufsiz None) (0 :: u32)")
    case Undefined
    then show ?thesis
      using True by (simp add: read_comment_def)
  next
    case (Exit out fd')
    then have "fd' = Closed \<and> out = [TooFewFilename]"
      by (rule read_loop_Exit_Closed) simp
    then show ?thesis
      using True Exit by (simp add: read_comment_def)
  next
    case (Cont p)
    obtain fd' buf len where p: "p = (fd', buf, len)"
      by (cases p)
    then obtain off' where "fd' = Open cs off'"
      using Cont read_loop_Cont_Open[of bufsiz "Open cs off" _ _ fd' buf len cs off] by auto
    then show ?thesis
      using True Cont p by (auto simp: read_comment_def split: option.splits)
  qed
qed

lemma read_extra_Cont:
  assumes "read_extra header (Open cs off) = Cont (out, fd')"
  shows "(\<exists>off'. fd' = Open cs off') \<and> fields_read out = (if flag_set header FEXTRA then [ExtraF] else [])"
  using assms read_extra_shape[of header cs off] by auto

lemma read_filename_Cont:
  assumes "read_filename header (Open cs off) = Cont (out, fd')"
  shows "(\<exists>off'. fd' = Open cs off') \<and> fields_read out = (if flag_set header FNAME then [NameF] else [])"
  using assms read_filename_shape[of header cs off] by auto

lemma read_comment_Cont:
  assumes "read_comment bufsiz header (Open cs off) = Cont (out, fd')"
  shows "(\<exists>off'. fd' = Open cs off') \<and> fields_read out = (if flag_set header FCOMMENT then [CommentF] else [])"
  using assms read_comment_shape[of bufsiz header cs off] by auto

lemma read_hcrc_Cont:
  assumes "read_hcrc header (Open cs off) = Cont (out, fd')"
  shows "(\<exists>off'. fd' = Open cs off') \<and> fields_read out = (if flag_set header FHCRC then [HcrcF] else [])"
  using assms read_hcrc_shape[of header cs off] by auto

lemma read_extra_Exit:
  assumes "read_extra header (Open cs off) = Exit out fd'"
  shows "fd' = Closed \<and> out = [TooFewExtra] \<and> flag_set header FEXTRA"
  using assms read_extra_shape[of header cs off] by auto

lemma read_filename_Exit:
  assumes "read_filename header (Open cs off) = Exit out fd'"
  shows "fd' = Closed \<and> out = [TooFewFilename] \<and> flag_set header FNAME"
  using assms read_filename_shape[of header cs off] by auto

lemma read_comment_Exit:
  assumes "read_comment bufsiz header (Open cs off) = Exit out fd'"
  shows "fd' = Closed \<and> out = [TooFewFilename] \<and> flag_set header FCOMMENT"
  using assms read_comment_shape[of bufsiz header cs off] by auto

lemma read_hcrc_Exit:
  assumes "read_hcrc header (Open cs off) = Exit out fd'"
  shows "fd' = Closed \<and> out = [TooFewHcrc] \<and> flag_set header FHCRC"
  using assms read_hcrc_shape[of header cs off] by auto

lemma extra_filename_Cont:
  assumes "and_then (read_extra header (Open cs off)) (read_filename header) = Cont (out, fd')"
  shows "(\<exists>off'. fd' = Open cs off') \<and>
    fields_read out = filter (\<lambda>f. flag_set header (field_flag f)) [ExtraF, NameF]"
proof -
  from assms obtain o1 fd1 o2 where
    a: "read_extra header (Open cs off) = Cont (o1, fd1)" and
    b: "read_filename header fd1 = Cont (o2, fd')" and o: "out = o1 @ o2"
    by (blast dest: and_then_Cont)
  from a obtain off1 where fd1: "fd1 = Open cs off1"
    and f1: "fields_read o1 = (if flag_set header FEXTRA then [ExtraF] else [])"
    using read_extra_Cont by blast
  from b fd1 obtain off2 where fd2: "fd' = Open cs off2"
    and f2: "fields_read o2 = (if flag_set header FNAME then [NameF] else [])"
    using read_filename_Cont by blast
  show ?thesis
    using fd2 f1 f2 o by simp
qed

lemma extra_filename_comment_Cont:
  assumes "and_then (and_then (read_extra header (Open cs off)) (read_filename header))
             (read_comment bufsiz header) = Cont (out, fd')"
  shows "(\<exists>off'. fd' = Open cs off') \<and>
    fields_read out = filter (\<lambda>f. flag_set header (field_flag f)) [ExtraF, NameF, CommentF]"
proof -
  from assms obtain o1 fd1 o2 where
    a: "and_then (read_extra header (Open cs off)) (read_filename header) = Cont (o1, fd1)" and
    b: "read_comment bufsiz header fd1 = Cont (o2, fd')" and o: "out = o1 @ o2"
    by (blast dest: and_then_Cont)
  from a obtain off1 where fd1: "fd1 = Open cs off1"
    and f1: "fields_read o1 = filter (\<lambda>f. flag_set header (field_flag f)) [ExtraF, NameF]"
    using extra_filename_Cont by blast
  from b fd1 obtain off2 where fd2: "fd' = Open cs off2"
    and f2: "fields_read o2 = (if flag_set header FCOMMENT then [CommentF] else [])"
    using read_comment_Cont by blast
  show ?thesis
    using fd2 f1 f2 o by simp
qed

lemma optional_fields_Cont:
  assumes "optional_fields bufsiz header (Open cs off) = Cont (out, fd')"
  shows "(\<exists>off'. fd' = Open cs off') \<and>
    fields_read out = filter (\<lambda>f. flag_set header (field_flag f)) [ExtraF, NameF, CommentF, HcrcF]"
proof -
  from assms obtain o1 fd1 o2 where
    a: "and_then (and_then (read_extra header (Open cs off)) (read_filename header))
             (read_comment bufsiz header) = Cont (o1, fd1)" and
    b: "read_hcrc header fd1 = Cont (o2, fd')" and o: "out = o1 @ o2"
    unfolding optional_fields_def by (blast dest: and_then_Cont)
  from a obtain off1 where fd1: "fd1 = Open cs off1"
    and f1: "fields_read o1 = filter (\<lambda>f. flag_set header (field_flag f)) [ExtraF, NameF, CommentF]"
    using extra_filename_comment_Cont by blast
  from b fd1 obtain off2 where fd2: "fd' = Open cs off2"
    and f2: "fields_read o2 = (if flag_set header FHCRC then [HcrcF] else [])"
    using read_hcrc_Cont by blast
  show ?thesis
    using fd2 f1 f2 o by simp
qed

lemma optional_fields_Exit:
  assumes "optional_fields bufsiz header (Open cs off) = Exit out fd'"
  shows "fd' = Closed \<and>
    (\<exists>pre e rest. out = pre @ [e] \<and> e \<in> {TooFewExtra, TooFewFilename, TooFewHcrc} \<and> rest \<noteq> [] \<and>
       filter (\<lambda>f. flag_set header (field_flag f)) [ExtraF, NameF, CommentF, HcrcF] = fields_read out @ rest)"
proof -
  let ?r1 = "read_extra header (Open cs off)"
  let ?r2 = "and_then ?r1 (read_filename header)"
  let ?r3 = "and_then ?r2 (read_comment bufsiz header)"
  from assms have "and_then ?r3 (read_hcrc header) = Exit out fd'"
    by (simp add: optional_fields_def)
  then have d3: "?r3 = Exit out fd' \<or>
      (\<exists>o1 fd1 o2. ?r3 = Cont (o1, fd1) \<and> read_hcrc header fd1 = Exit o2 fd' \<and> out = o1 @ o2)"
    by (rule and_then_Exit)
  have d2: "?r3 = Exit out fd' \<Longrightarrow> ?r2 = Exit out fd' \<or>
      (\<exists>o1 fd1 o2. ?r2 = Cont (o1, fd1) \<and> read_comment bufsiz header fd1 = Exit o2 fd' \<and> out = o1 @ o2)"
    by (rule and_then_Exit)
  have d1: "?r2 = Exit out fd' \<Longrightarrow> ?r1 = Exit out fd' \<or>
      (\<exists>o1 fd1 o2. ?r1 = Cont (o1, fd1) \<and> read_filename header fd1 = Exit o2 fd' \<and> out = o1 @ o2)"
    by (rule and_then_Exit)
  from d3 d2 d1 consider
      (hcrc) o1 fd1 o2 where "?r3 = Cont (o1, fd1)" "read_hcrc header fd1 = Exit o2 fd'" "out = o1 @ o2"
    | (comment) o1 fd1 o2 where "?r2 = Cont (o1, fd1)" "read_comment bufsiz header fd1 = Exit o2 fd'" "out = o1 @ o2"
    | (name) o1 fd1 o2 where "?r1 = Cont (o1, fd1)" "read_filename header fd1 = Exit o2 fd'" "out = o1 @ o2"
    | (extra) "?r1 = Exit out fd'"
    by blast
  then show ?thesis
  proof cases
    case hcrc
    from hcrc(1) obtain off1 where fd1: "fd1 = Open cs off1"
      and f1: "fields_read o1 = filter (\<lambda>f. flag_set header (field_flag f)) [ExtraF, NameF, CommentF]"
      using extra_filename_comment_Cont by blast
    from hcrc(2) fd1 have "fd' = Closed \<and> o2 = [TooFewHcrc] \<and> flag_set header FHCRC"
      using read_hcrc_Exit by blast
    then show ?thesis
      using f1 hcrc(3) by auto
  next
    case comment
    from comment(1) obtain off1 where fd1: "fd1 = Open cs off1"
      and f1: "fields_read o1 = filter (\<lambda>f. flag_set header (field_flag f)) [ExtraF, NameF]"
      using extra_filename_Cont by blast
    from comment(2) fd1 have "fd' = Closed \<and> o2 = [TooFewFilename] \<and> flag_set header FCOMMENT"
      using read_comment_Exit by blast
    then show ?thesis
      using f1 comment(3) by auto
  next
    case name
    from name(1) obtain off1 where fd1: "fd1 = Open cs off1"
      and f1: "fields_read o1 = (if flag_set header FEXTRA then [ExtraF] else [])"
      using read_extra_Cont by blast
    from name(2) fd1 have "fd' = Closed \<and> o2 = [TooFewFilename] \<and> flag_set header FNAME"
      using read_filename_Exit by blast
    then show ?thesis
      using f1 name(3) by auto
  next
    case extra
    then have "fd' = Closed \<and> out = [TooFewExtra] \<and> flag_set header FEXTRA"
      using read_extra_Exit by blast
    then show ?thesis
      by auto
  qed
qed

lemma fields_read_report_header [simp]: "fields_read (report_header header) = []"
  by (simp add: report_header_def)

lemma parse_front_Cont:
  assumes "parse_front bufsiz (Some cs) = Cont (out, fd')"
  shows "12 \<le> length cs \<and> (\<exists>off'. fd' = Open cs off') \<and>
    fields_read out =
      filter (\<lambda>f. flag_set (header_of (take 12 cs)) (field_flag f)) [ExtraF, NameF, CommentF, HcrcF]"
proof (cases "12 \<le> length cs")
  case False
  then show ?thesis
    using assms by (simp add: parse_front_def read_header_short)
next
  case True
  let ?h = "header_of (take 12 cs)"
  have rh: "read_header (Some cs) = Cont ([ValidGzip], ?h, Open cs 12)"
    using assms True by (auto simp: parse_front_def read_header_long split: if_splits)
  then have "and_then (Cont ([ValidGzip] @ report_header ?h, Open cs 12)) (optional_fields bufsiz ?h) =
      Cont (out, fd')"
    using assms by (simp add: parse_front_def del: and_then.simps)
  from and_then_Cont[OF this] obtain o1 fd1 o2 where
    "Cont ([ValidGzip] @ report_header ?h, Open cs 12) = Cont (o1, fd1)"
    "optional_fields bufsiz ?h fd1 = Cont (o2, fd')" "out = o1 @ o2"
    by blast
  then have o: "optional_fields bufsiz ?h (Open cs 12) = Cont (o2, fd')"
    and out: "out = ([ValidGzip] @ report_header ?h) @ o2"
    by simp_all
  from optional_fields_Cont[OF o] show ?thesis
    using True out by simp
qed

lemma read_trailer_Cont_Open:
  assumes "8 \<le> length cs"
  shows "\<exists>b0 b1 b2 b3 b4 b5 b6 b7. drop (length cs - 8) cs = [b0, b1, b2, b3, b4, b5, b6, b7] \<and>
    (\<forall>off. read_trailer (Open cs off) =
       Cont ([Checksum (le32 b0 b1 b2 b3), Isize (le32 b4 b5 b6 b7)], Closed))"
  using last_eight[OF assms] read_trailer_Open by blast

lemma main_of_parse_front:
  assumes "parse_front bufsiz file = Cont (out, fd)" "read_trailer fd = Cont (out', fd')"
  shows "main bufsiz file = Some \<lparr> printed = out @ out', fd_final = fd', retval = 0 \<rparr>"
  using assms by (simp add: main_def)

section \<open>Runs on two files that agree from some offset on\<close>

lemma agree_Exit [simp]: "agree q cs cs' (Exit out Closed) (Exit out Closed)"
  by (simp add: agree_def)

lemma agree_Cont [simp]: "q \<le> off \<Longrightarrow> agree q cs cs' (Cont (out, Open cs off)) (Cont (out, Open cs' off))"
  by (simp add: agree_def)

lemma frame_drop:
  assumes "drop p cs' = drop p cs" "p \<le> off"
  shows "drop off cs' = drop off cs"
proof -
  have "drop off cs' = drop (off - p) (drop p cs')"
    using assms(2) by simp
  also have "\<dots> = drop (off - p) (drop p cs)"
    by (simp only: assms(1))
  also have "\<dots> = drop off cs"
    using assms(2) by simp
  finally show ?thesis .
qed

lemma agree_read_extra:
  assumes "drop p cs' = drop p cs" "p \<le> off" "q \<le> off"
  shows "agree q cs cs' (read_extra header (Open cs off)) (read_extra header (Open cs' off))"
  using frame_drop[OF assms(1,2)] assms(3)
  by (simp add: read_extra_Open del: length_drop)

lemma agree_read_filename:
  assumes "drop p cs' = drop p cs" "p + 2 \<le> off" "q + 2 \<le> off"
  shows "agree q cs cs' (read_filename header (Open cs off)) (read_filename header (Open cs' off))"
proof (cases "flag_set header FNAME")
  case False
  then show ?thesis
    using assms(3) by (simp add: read_filename_def)
next
  case True
  define p' where "p' = (if \<not> flag_set header FEXTRA \<and> 2 \<le> off then off - 2 else off)"
  have "p \<le> p'" "q \<le> p'"
    using assms(2,3) by (auto simp: p'_def)
  then show ?thesis
    using frame_drop[OF assms(1) \<open>p \<le> p'\<close>]
    by (simp add: read_filename_Open[OF True] Let_def p'_def[symmetric] del: length_drop)
qed

lemma agree_read_comment:
  assumes "drop p cs' = drop p cs" "p \<le> off" "q \<le> off" "0 < bufsiz" "bufsiz < 2 ^ 32"
  shows "agree q cs cs' (read_comment bufsiz header (Open cs off)) (read_comment bufsiz header (Open cs' off))"
proof (cases "flag_set header FCOMMENT")
  case False
  then show ?thesis
    using assms(3) by (simp add: read_comment_def)
next
  case True
  show ?thesis
    using frame_drop[OF assms(1,2)] assms(3)
    by (simp add: read_comment_Open[OF True assms(4,5)] Let_def del: length_drop)
qed

lemma agree_read_hcrc:
  assumes "drop p cs' = drop p cs" "p \<le> off" "q \<le> off"
  shows "agree q cs cs' (read_hcrc header (Open cs off)) (read_hcrc header (Open cs' off))"
proof -
  have d: "drop off cs' = drop off cs"
    using assms(1,2) by (rule frame_drop)
  have "cs' ! off = cs ! off \<and> cs' ! (off + 1) = cs ! (off + 1)" if "\<not> length (drop off cs) < 2"
  proof -
    have l: "off \<le> length cs" "off \<le> length cs'"
      using that d by (metis drop_all linorder_le_cases list.size(3) not_numeral_le_zero not_less)+
    have "cs' ! (off + 0) = drop off cs' ! 0" "cs' ! (off + 1) = drop off cs' ! 1"
      "cs ! (off + 0) = drop off cs ! 0" "cs ! (off + 1) = drop off cs ! 1"
      using l by (simp_all only: nth_drop)
    then show ?thesis
      using d by simp
  qed
  then show ?thesis
    using d assms(3) by (simp add: read_hcrc_Open del: length_drop)
qed

lemma agree_and_then:
  assumes "agree p cs cs' r r'"
    and "\<And>off. p \<le> off \<Longrightarrow> agree q cs cs' (f (Open cs off)) (f (Open cs' off))"
  shows "agree q cs cs' (and_then r f) (and_then r' f)"
proof (cases r)
  case Undefined
  then show ?thesis using assms(1) by (simp add: agree_def)
next
  case (Exit out fd)
  then show ?thesis using assms(1) by (simp add: agree_def)
next
  case (Cont x)
  then obtain out off where r: "r = Cont (out, Open cs off)" "r' = Cont (out, Open cs' off)" "p \<le> off"
    using assms(1) by (cases x) (auto simp: agree_def split: fdesc.splits)
  show ?thesis
    using assms(2)[OF r(3)] unfolding r
    by (auto simp: agree_def split: run.splits fdesc.splits)
qed

lemma agree_optional_fields:
  assumes "drop p cs' = drop p cs" "p + 2 \<le> off" "0 < bufsiz" "bufsiz < 2 ^ 32"
  shows "agree p cs cs' (optional_fields bufsiz header (Open cs off))
           (optional_fields bufsiz header (Open cs' off))"
  unfolding optional_fields_def
proof (intro agree_and_then)
  show "agree (p + 2) cs cs' (read_extra header (Open cs off)) (read_extra header (Open cs' off))"
    using assms(1,2) by (intro agree_read_extra[where p = p]) simp_all
  show "\<And>off. p + 2 \<le> off \<Longrightarrow>
      agree p cs cs' (read_filename header (Open cs off)) (read_filename header (Open cs' off))"
    using assms(1) by (intro agree_read_filename[where p = p]) simp_all
  show "\<And>off. p \<le> off \<Longrightarrow>
      agree p cs cs' (read_comment bufsiz header (Open cs off)) (read_comment bufsiz header (Open cs' off))"
    using assms(1,3,4) by (intro agree_read_comment[where p = p]) simp_all
  show "\<And>off. p \<le> off \<Longrightarrow>
      agree p cs cs' (read_hcrc header (Open cs off)) (read_hcrc header (Open cs' off))"
    using assms(1) by (intro agree_read_hcrc[where p = p]) simp_all
qed

lemma header_of_cm_update:
  assumes "12 \<le> length cs"
  shows "header_of (take 12 (cs[2 := c])) = (header_of (take 12 cs))\<lparr> cm := c \<rparr>"
  using assms by (simp add: header_of_def nth_list_update)

lemma flag_set_cm_update [simp]: "flag_set (header\<lparr> cm := c \<rparr>) f = flag_set header f"
  by (simp add: flag_set_def)

lemma optional_fields_cm_update:
  "optional_fields bufsiz (header\<lparr> cm := c \<rparr>) fd = optional_fields bufsiz header fd"
proof -
  have "read_extra (header\<lparr> cm := c \<rparr>) = read_extra header"
    "read_filename (header\<lparr> cm := c \<rparr>) = read_filename header"
    "read_comment bufsiz (header\<lparr> cm := c \<rparr>) = read_comment bufsiz header"
    "read_hcrc (header\<lparr> cm := c \<rparr>) = read_hcrc header"
    by (simp_all add: fun_eq_iff read_extra_def read_filename_def read_comment_def read_hcrc_def)
  then show ?thesis
    by (simp only: optional_fields_def)
qed

lemma report_header_cm:
  assumes "cm header \<noteq> 8"
  shows "report_header (header\<lparr> cm := 8 \<rparr>) = StdDeflate # report_header header"
    and "StdDeflate \<notin> set (report_header header)"
  using assms by (simp_all add: report_header_def flag_names_def)

lemma main_valid_Exit:
  assumes "read_header file = Cont ([ValidGzip], header, fd)"
    and "optional_fields bufsiz header fd = Exit out fd'"
  shows "main bufsiz file =
    Some \<lparr> printed = ValidGzip # report_header header @ out, fd_final = fd', retval = - 1 \<rparr>"
  using assms by (simp add: main_def parse_front_def)

lemma main_valid_Cont:
  assumes "read_header file = Cont ([ValidGzip], header, fd)"
    and "optional_fields bufsiz header fd = Cont (out, fd')"
    and "read_trailer fd' = Cont (out', fd'')"
  shows "main bufsiz file =
    Some \<lparr> printed = ValidGzip # report_header header @ out @ out', fd_final = fd'', retval = 0 \<rparr>"
  using assms by (simp add: main_def parse_front_def)

section \<open>Release of the descriptor\<close>

text \<open>
  Whenever the program returns on a file that could be opened, it has closed the descriptor,
  except on the path of the invalid magic.
\<close>

lemma main_closes_unless_invalid_magic:
  assumes "main bufsiz (Some cs) = Some r"
  shows "fd_final r = Closed \<or> (printed r = [InvalidGzip] \<and> fd_final r = Open cs 12)"
proof (cases "length cs < 12")
  case True
  then show ?thesis
    using assms by (auto simp: main_short)
next
  case False
  then have len: "12 \<le> length cs"
    by simp
  show ?thesis
  proof (cases "cs ! 0 = 0x1f \<and> cs ! 1 = 0x8b")
    case False
    then show ?thesis
      using assms main_bad_magic[OF len False, of bufsiz] by auto
  next
    case True
    let ?h = "header_of (take 12 cs)"
    have rh: "read_header (Some cs) = Cont ([ValidGzip], ?h, Open cs 12)"
      using len True by (simp add: read_header_long)
    show ?thesis
    proof (cases "optional_fields bufsiz ?h (Open cs 12)")
      case Undefined
      then show ?thesis
        using assms rh by (simp add: main_def parse_front_def)
    next
      case (Exit out fd)
      then have "fd = Closed"
        using optional_fields_Exit by blast
      then show ?thesis
        using assms main_valid_Exit[OF rh Exit] by auto
    next
      case (Cont x)
      obtain out fd where x: "x = (out, fd)"
        by (cases x)
      then obtain off where fd: "fd = Open cs off"
        using Cont optional_fields_Cont by blast
      obtain out' where "read_trailer fd = Cont (out', Closed)"
        using read_trailer_Cont_Open[of cs] len fd by auto
      then show ?thesis
        using assms main_valid_Cont[OF rh Cont[unfolded x]] by auto
    qed
  qed
qed

section \<open>Claims about the fixed header\<close>

text \<open>
  Claim C3, as amended. For every input of at least 12 bytes, so that the read of the fixed
  header succeeds, whose first two bytes are not \<open>0x1f, 0x8b\<close>: the program prints
  ``invalid gzip file'' and returns \<open>-1\<close> (InvalidMagic); nothing else is printed, so no
  optional field and no trailer is parsed; and the file offset stays at 12, the bytes already
  read.
\<close>

theorem C3_invalid_magic:
  assumes "12 \<le> length cs" and "\<not> (cs ! 0 = 0x1f \<and> cs ! 1 = 0x8b)"
  shows "main bufsiz (Some cs) =
           Some \<lparr> printed = [InvalidGzip], fd_final = Open cs 12, retval = - 1 \<rparr> \<and>
         outcome_of \<lparr> printed = [InvalidGzip], fd_final = Open cs 12, retval = - 1 \<rparr> =
           Some InvalidMagic"
  using assms by (simp add: main_bad_magic outcome_of_def)

text \<open>Claim C3 at a concrete input: the first 20 bytes of a zip archive.\<close>

theorem C3_invalid_magic_witness:
  "main 8192 (Some [0x50, 0x4b, 3, 4, 20, 0, 0, 0, 8, 0, 0, 0, 1, 2, 3, 4, 5, 6, 7, 8]) =
     Some \<lparr> printed = [InvalidGzip],
            fd_final = Open [0x50, 0x4b, 3, 4, 20, 0, 0, 0, 8, 0, 0, 0, 1, 2, 3, 4, 5, 6, 7, 8] 12,
            retval = - 1 \<rparr> \<and>
   outcome_of \<lparr> printed = [InvalidGzip],
                fd_final = Open [0x50, 0x4b, 3, 4, 20, 0, 0, 0, 8, 0, 0, 0, 1, 2, 3, 4, 5, 6, 7, 8] 12,
                retval = - 1 \<rparr> = Some InvalidMagic"
  using C3_invalid_magic [of "[0x50, 0x4b, 3, 4, 20, 0, 0, 0, 8, 0, 0, 0, 1, 2, 3, 4, 5, 6, 7, 8]" 8192]
  by simp

text \<open>
  Claim C3 as stated fails on an input shorter than the fixed header: the five bytes
  \<open>50 4b 03 04 00\<close> do not start with \<open>0x1f, 0x8b\<close>, and the outcome is
  TruncatedInput (``read too few bytes!''), since the length check comes before the magic check.
\<close>

theorem C3_short_input_counterexample:
  "main 8192 (Some [0x50, 0x4b, 3, 4, 0]) =
     Some \<lparr> printed = [TooFewBytes], fd_final = Closed, retval = - 1 \<rparr> \<and>
   outcome_of \<lparr> printed = [TooFewBytes], fd_final = Closed, retval = - 1 \<rparr> = Some TruncatedInput \<and>
   outcome_of \<lparr> printed = [TooFewBytes], fd_final = Closed, retval = - 1 \<rparr> \<noteq> Some InvalidMagic"
  by (simp add: main_short outcome_of_def)

text \<open>
  Claim C5, as amended. For an input of exactly 7 bytes the outcome is TruncatedInput, from the
  read of the fixed header: the program prints ``read too few bytes!'', closes the descriptor
  and returns before any seek.
\<close>

theorem C5_seven_bytes_truncated:
  assumes "length cs = 7"
  shows "main bufsiz (Some cs) =
           Some \<lparr> printed = [TooFewBytes], fd_final = Closed, retval = - 1 \<rparr> \<and>
         outcome_of \<lparr> printed = [TooFewBytes], fd_final = Closed, retval = - 1 \<rparr> =
           Some TruncatedInput"
  using assms by (simp add: main_short outcome_of_def)

text \<open>Claim C5 at a concrete input of 7 bytes.\<close>

theorem C5_seven_bytes_truncated_witness:
  "length [0x1f, 0x8b, 8, 0, 1, 2, 3 :: u8] = 7 \<and>
   main 8192 (Some [0x1f, 0x8b, 8, 0, 1, 2, 3]) =
     Some \<lparr> printed = [TooFewBytes], fd_final = Closed, retval = - 1 \<rparr> \<and>
   outcome_of \<lparr> printed = [TooFewBytes], fd_final = Closed, retval = - 1 \<rparr> = Some TruncatedInput"
  using C5_seven_bytes_truncated [of "[0x1f, 0x8b, 8, 0, 1, 2, 3]" 8192]
  by simp

text \<open>
  Claim C5 as stated fails: on the 7 bytes \<open>1f 8b 08 00 00 00 00\<close> the outcome is not
  SeekOutOfRange.
\<close>

theorem C5_seven_bytes_counterexample:
  "main 8192 (Some [0x1f, 0x8b, 8, 0, 0, 0, 0]) =
     Some \<lparr> printed = [TooFewBytes], fd_final = Closed, retval = - 1 \<rparr> \<and>
   outcome_of \<lparr> printed = [TooFewBytes], fd_final = Closed, retval = - 1 \<rparr> \<noteq> Some SeekOutOfRange"
  by (simp add: main_short outcome_of_def)

text \<open>
  Claim C8 at an input where the code departs from it: on a 12-byte file with a wrong magic
  the program returns \<open>-1\<close> while the descriptor is still open, at offset 12. Every other
  error path calls \<^verbatim>\<open>close(fd)\<close> before it returns.
\<close>

theorem C8_invalid_magic_exit_keeps_fd_open:
  "main 8192 (Some [0x50, 0x4b, 3, 4, 20, 0, 0, 0, 8, 0, 0, 0]) =
     Some \<lparr> printed = [InvalidGzip],
            fd_final = Open [0x50, 0x4b, 3, 4, 20, 0, 0, 0, 8, 0, 0, 0] 12,
            retval = - 1 \<rparr> \<and>
   fd_final \<lparr> printed = [InvalidGzip],
              fd_final = Open [0x50, 0x4b, 3, 4, 20, 0, 0, 0, 8, 0, 0, 0] 12,
              retval = - 1 \<rparr> \<noteq> Closed"
  by (simp add: main_bad_magic)

text \<open>
  Claim C9. The result \<open>-1\<close> of a failed \<^verbatim>\<open>read\<close> becomes \<open>2^32 - 1\<close> in the unsigned
  \<^verbatim>\<open>bytes_read\<close>, which is not below \<^verbatim>\<open>sizeof(struct gzip_header)\<close>: when the file
  cannot be opened, the read of the header fails with \<open>-1\<close> and the program does not report
  a truncated input (it goes on to the magic check on the zeroed header and reports an invalid
  gzip file). On a file that can be read, the check reports a truncated input exactly when the
  file has fewer than 12 bytes.
\<close>

theorem C9_failed_read_not_truncated:
  "to_uint (- 1) = 2 ^ 32 - 1 \<and>
   sys_read (sys_open None) sizeof_gzip_header = (- 1, [], BadFd) \<and>
   \<not> (ucast (to_uint (- 1)) :: u64) < of_nat sizeof_gzip_header \<and>
   main bufsiz None = Some \<lparr> printed = [InvalidGzip], fd_final = BadFd, retval = - 1 \<rparr> \<and>
   outcome_of \<lparr> printed = [InvalidGzip], fd_final = BadFd, retval = - 1 \<rparr> \<noteq> Some TruncatedInput \<and>
   (read_header (Some cs) = Exit [TooFewBytes] Closed) = (length cs < sizeof_gzip_header)"
proof -
  have "(read_header (Some cs) = Exit [TooFewBytes] Closed) = (length cs < 12)"
  proof (cases "length cs < 12")
    case True
    then show ?thesis by (simp add: read_header_short)
  next
    case False
    then have "12 \<le> length cs" by simp
    then show ?thesis by (simp add: read_header_long)
  qed
  then show ?thesis
    using not_short_minus1
    by (simp add: to_uint_minus1 main_None outcome_of_def sizeof_gzip_header_def)
qed

text \<open>
  Claim C7, as amended. For every input that reaches the check of the compression method (at
  least 12 bytes, valid magic) and whose compression-method byte is not \<open>0x08\<close>: nothing is
  printed about the compression method, and the value is not an error. The run goes on past
  the check and is, line for line, the run on the same file with that byte set to \<open>0x08\<close>,
  except that the line naming ``deflate'' is missing: the same report of flags, time, XFL and
  OS, the same optional fields, trailer or error message after it (\<open>rest\<close>), and the same
  return value. \<open>bufsiz\<close> is positive and fits the \<^verbatim>\<open>uint32_t\<close> counter.
\<close>

theorem C7_compression_method_not_an_error:
  assumes "0 < bufsiz" "bufsiz < 2 ^ 32"
    and "12 \<le> length cs" "cs ! 0 = 0x1f" "cs ! 1 = 0x8b" "cs ! 2 \<noteq> 8"
  shows "\<exists>rest rv.
    main bufsiz (Some cs) =
      Some \<lparr> printed = ValidGzip # report_header (header_of (take 12 cs)) @ rest,
             fd_final = Closed, retval = rv \<rparr> \<and>
    main bufsiz (Some (cs[2 := 8])) =
      Some \<lparr> printed = ValidGzip # StdDeflate # report_header (header_of (take 12 cs)) @ rest,
             fd_final = Closed, retval = rv \<rparr> \<and>
    StdDeflate \<notin> set (report_header (header_of (take 12 cs)))"
proof -
  let ?cs8 = "cs[2 := 8]"
  let ?h = "header_of (take 12 cs)"
  let ?h8 = "?h\<lparr> cm := 8 \<rparr>"
  have cmh: "cm ?h \<noteq> 8"
    using assms(3,6) by (simp add: header_of_def)
  have rh: "read_header (Some cs) = Cont ([ValidGzip], ?h, Open cs 12)"
    using assms(3-5) by (simp add: read_header_long)
  have rh8: "read_header (Some ?cs8) = Cont ([ValidGzip], ?h8, Open ?cs8 12)"
    using assms(3-5) by (simp add: read_header_long header_of_cm_update)
  have rep: "report_header ?h8 = StdDeflate # report_header ?h"
    and nd: "StdDeflate \<notin> set (report_header ?h)"
    using report_header_cm[OF cmh] by simp_all
  have fr: "drop 3 ?cs8 = drop 3 cs"
    by simp
  have ag: "agree 3 cs ?cs8 (optional_fields bufsiz ?h (Open cs 12))
      (optional_fields bufsiz ?h (Open ?cs8 12))"
    using fr assms(1,2) by (intro agree_optional_fields) simp_all
  show ?thesis
  proof (cases "optional_fields bufsiz ?h (Open cs 12)")
    case Undefined
    then show ?thesis
      using ag by (simp add: agree_def)
  next
    case (Exit out fd)
    then have e: "optional_fields bufsiz ?h (Open cs 12) = Exit out Closed"
      and e8: "optional_fields bufsiz ?h8 (Open ?cs8 12) = Exit out Closed"
      using ag by (simp_all add: agree_def optional_fields_cm_update)
    show ?thesis
      using main_valid_Exit[OF rh e] main_valid_Exit[OF rh8 e8] rep nd
      by simp
  next
    case (Cont x)
    then obtain out off where c: "optional_fields bufsiz ?h (Open cs 12) = Cont (out, Open cs off)"
      and c8: "optional_fields bufsiz ?h8 (Open ?cs8 12) = Cont (out, Open ?cs8 off)"
      using ag by (cases x) (auto simp: agree_def optional_fields_cm_update split: fdesc.splits)
    have "8 \<le> length cs"
      using assms(3) by simp
    then obtain b0 b1 b2 b3 b4 b5 b6 b7 where
      d: "drop (length cs - 8) cs = [b0, b1, b2, b3, b4, b5, b6, b7]"
      using last_eight[of cs] by blast
    have "drop (length ?cs8 - 8) ?cs8 = drop (length cs - 8) cs"
      using assms(3) by simp
    then have d8: "drop (length ?cs8 - 8) ?cs8 = [b0, b1, b2, b3, b4, b5, b6, b7]"
      using d by simp
    show ?thesis
      using main_valid_Cont[OF rh c read_trailer_Open[OF d]]
        main_valid_Cont[OF rh8 c8 read_trailer_Open[OF d8]] rep nd
      by simp
  qed
qed

text \<open>Claim C7 at a concrete input with compression method 7.\<close>

theorem C7_compression_method_not_an_error_witness:
  "(0 :: nat) < 8192 \<and> (8192 :: nat) < 2 ^ 32 \<and>
   12 \<le> length ([0x1f, 0x8b, 7, 0, 0, 0, 0, 0, 0, 3, 3, 0, 0xde, 0xad, 0xbe, 0xef, 0x0a, 0, 0, 0] :: u8 list) \<and>
   ([0x1f, 0x8b, 7, 0, 0, 0, 0, 0, 0, 3, 3, 0, 0xde, 0xad, 0xbe, 0xef, 0x0a, 0, 0, 0] :: u8 list) ! 0 = 0x1f \<and>
   ([0x1f, 0x8b, 7, 0, 0, 0, 0, 0, 0, 3, 3, 0, 0xde, 0xad, 0xbe, 0xef, 0x0a, 0, 0, 0] :: u8 list) ! 1 = 0x8b \<and>
   ([0x1f, 0x8b, 7, 0, 0, 0, 0, 0, 0, 3, 3, 0, 0xde, 0xad, 0xbe, 0xef, 0x0a, 0, 0, 0] :: u8 list) ! 2 \<noteq> 8 \<and>
   (\<exists>rest rv.
      main 8192 (Some [0x1f, 0x8b, 7, 0, 0, 0, 0, 0, 0, 3, 3, 0, 0xde, 0xad, 0xbe, 0xef, 0x0a, 0, 0, 0]) =
        Some \<lparr> printed = ValidGzip #
                 report_header (header_of (take 12 [0x1f, 0x8b, 7, 0, 0, 0, 0, 0, 0, 3, 3, 0, 0xde, 0xad, 0xbe, 0xef, 0x0a, 0, 0, 0])) @ rest,
               fd_final = Closed, retval = rv \<rparr> \<and>
      main 8192 (Some [0x1f, 0x8b, 8, 0, 0, 0, 0, 0, 0, 3, 3, 0, 0xde, 0xad, 0xbe, 0xef, 0x0a, 0, 0, 0]) =
        Some \<lparr> printed = ValidGzip # StdDeflate #
                 report_header (header_of (take 12 [0x1f, 0x8b, 7, 0, 0, 0, 0, 0, 0, 3, 3, 0, 0xde, 0xad, 0xbe, 0xef, 0x0a, 0, 0, 0])) @ rest,
               fd_final = Closed, retval = rv \<rparr>)"
  using C7_compression_method_not_an_error [of 8192 "[0x1f, 0x8b, 7, 0, 0, 0, 0, 0, 0, 3, 3, 0, 0xde, 0xad, 0xbe, 0xef, 0x0a, 0, 0, 0]"]
  by auto

text \<open>
  Claim C7 as stated fails: a compression method other than 8 is not reported. With the
  byte 7, and with the byte 9, the program prints the same five lines, none of them about
  the compression method.
\<close>

theorem C7_not_reported_counterexample:
  "main 8192 (Some [0x1f, 0x8b, 7, 0, 0, 0, 0, 0, 0, 3, 3, 0, 0xde, 0xad, 0xbe, 0xef, 0x0a, 0, 0, 0]) =
     Some \<lparr> printed = [ValidGzip, Xfl 0, Os ''UNIX'', Checksum 0xefbeadde, Isize 10],
            fd_final = Closed, retval = 0 \<rparr> \<and>
   main 8192 (Some [0x1f, 0x8b, 9, 0, 0, 0, 0, 0, 0, 3, 3, 0, 0xde, 0xad, 0xbe, 0xef, 0x0a, 0, 0, 0]) =
     Some \<lparr> printed = [ValidGzip, Xfl 0, Os ''UNIX'', Checksum 0xefbeadde, Isize 10],
            fd_final = Closed, retval = 0 \<rparr>"
  by code_simp

section \<open>Claims about the optional fields\<close>

text \<open>
  Claim C1 at two inputs where the code departs from it. Both have FEXTRA and FNAME unset.
  In the first, FCOMMENT is set and the comment \<open>hi\<close> starts at offset 10; in the second,
  FHCRC is set and the header checksum \<open>ab cd\<close> is at offset 10. The program moves the
  offset back by 2 only inside the filename branch, so here it reads the comment and the
  checksum at offset 12: it reports an empty comment, and the checksum \<open>0x0003\<close> taken from
  the first two bytes of the compressed data.
\<close>

theorem C1_no_retreat_before_comment_or_checksum:
  "main 8192 (Some [0x1f, 0x8b, 8, 0x10, 0, 0, 0, 0, 0, 3,  0x68, 0x69, 0,  3, 0,
                    0, 0, 0, 0, 0, 0, 0, 0]) =
     Some \<lparr> printed = [ValidGzip, StdDeflate, FlagsSet [''FCOMMENT''], Xfl 0, Os ''UNIX'',
                       Comment [], Checksum 0, Isize 0],
            fd_final = Closed, retval = 0 \<rparr> \<and>
   main 8192 (Some [0x1f, 0x8b, 8, 0x02, 0, 0, 0, 0, 0, 3,  0xAB, 0xCD,  3, 0,
                    0, 0, 0, 0, 0, 0, 0, 0]) =
     Some \<lparr> printed = [ValidGzip, StdDeflate, FlagsSet [''FHCRC''], Xfl 0, Os ''UNIX'',
                       HeaderChecksum 0x0003, Checksum 0, Isize 0],
            fd_final = Closed, retval = 0 \<rparr>"
  by code_simp

text \<open>
  Claim C4. With FNAME set, the filename branch first moves the offset back by 2 when FEXTRA is
  unset (to \<open>p\<close> below), then reads single bytes from \<open>p\<close> on. Let \<open>z\<close> be the number of
  bytes before the first zero byte. If a zero byte comes within the first 128 bytes, the
  reported text is the \<open>z\<close> bytes before it, without the terminator, and the offset ends just
  after the terminator. Otherwise, if 128 bytes are there, exactly 128 bytes are read and the
  reported text is the first 127 of them; \<open>c_string\<close> yields a text only from a buffer that
  holds a zero byte, so the buffer is terminated in both cases. Otherwise the stream ends first:
  the program prints its truncation message, closes the descriptor and returns \<open>-1\<close>
  (TruncatedInput).
\<close>

theorem C4_filename:
  assumes "flag_set header FNAME"
  shows "read_filename header (Open cs off) =
    (let p = (if \<not> flag_set header FEXTRA \<and> 2 \<le> off then off - 2 else off);
         rest = drop p cs;
         z = length (takeWhile (\<lambda>b. b \<noteq> 0) rest)
     in if z < length rest \<and> z < 128 then Cont ([Filename (take z rest)], Open cs (p + z + 1))
        else if 128 \<le> length rest then Cont ([Filename (take 127 rest)], Open cs (p + 128))
        else Exit [TooFewFilename] Closed) \<and>
    error_kind TooFewFilename = Some TruncatedInput"
  using assms by (simp only: read_filename_Open error_kind.simps simp_thms)

text \<open>Claim C4 at a concrete input: FNAME set, FEXTRA unset, the name \<open>test.txt\<close> at offset 10.\<close>

theorem C4_filename_witness:
  "flag_set \<lparr> id1 = 0x1f, id2 = 0x8b, cm = 8, flag = 8, mtime = 0, xfl = 0, os = 3, xlen = 0x6574 \<rparr> FNAME \<and>
   read_filename \<lparr> id1 = 0x1f, id2 = 0x8b, cm = 8, flag = 8, mtime = 0, xfl = 0, os = 3, xlen = 0x6574 \<rparr>
     (Open [0x1f, 0x8b, 8, 8, 0, 0, 0, 0, 0, 3, 0x74, 0x65, 0x73, 0x74, 0x2e, 0x74, 0x78, 0x74, 0,
            3, 0, 0, 0, 0, 0, 0, 0, 0, 0] 12) =
   Cont ([Filename [0x74, 0x65, 0x73, 0x74, 0x2e, 0x74, 0x78, 0x74]],
         Open [0x1f, 0x8b, 8, 8, 0, 0, 0, 0, 0, 3, 0x74, 0x65, 0x73, 0x74, 0x2e, 0x74, 0x78, 0x74, 0,
               3, 0, 0, 0, 0, 0, 0, 0, 0, 0] 19)"
  using C4_filename [of "\<lparr> id1 = 0x1f, id2 = 0x8b, cm = 8, flag = 8, mtime = 0, xfl = 0, os = 3, xlen = 0x6574 \<rparr>"
      "[0x1f, 0x8b, 8, 8, 0, 0, 0, 0, 0, 3, 0x74, 0x65, 0x73, 0x74, 0x2e, 0x74, 0x78, 0x74, 0,
            3, 0, 0, 0, 0, 0, 0, 0, 0, 0]" 12]
  by (simp add: flag_set_def FNAME_def FEXTRA_def Let_def)

text \<open>
  Claim C10. A store outside the buffer makes the model \<open>Undefined\<close>, and the loops never
  are: started on the fresh 128-byte filename buffer, or on the fresh comment buffer of
  \<open>bufsiz\<close> bytes, the loop keeps the buffer's length and leaves \<open>len\<close>, one more than the
  last index stored to, at most the buffer's length. When the first 128 (or \<open>bufsiz\<close>) bytes
  at the offset hold no zero byte, the loop consumes exactly that many bytes and fills the
  buffer with them, the store after the loop overwrites the last cell with 0, and the text
  printed is the first 127 (or \<open>bufsiz - 1\<close>) bytes. \<open>bufsiz\<close> is positive and fits the
  \<^verbatim>\<open>uint32_t\<close> counter.
\<close>

theorem C10_string_buffers:
  assumes "0 < bufsiz" "bufsiz < 2 ^ 32"
  shows
   "(read_loop 128 (Open cs off) (replicate 128 None) (0 :: u8) \<noteq> Undefined \<and>
     (\<forall>fd buf len. read_loop 128 (Open cs off) (replicate 128 None) (0 :: u8) = Cont (fd, buf, len)
        \<longrightarrow> length buf = 128 \<and> unat len \<le> 128)) \<and>
    (read_loop bufsiz (Open cs off) (replicate bufsiz None) (0 :: u32) \<noteq> Undefined \<and>
     (\<forall>fd buf len. read_loop bufsiz (Open cs off) (replicate bufsiz None) (0 :: u32) = Cont (fd, buf, len)
        \<longrightarrow> length buf = bufsiz \<and> unat len \<le> bufsiz)) \<and>
    read_filename header (Open cs off) \<noteq> Undefined \<and>
    read_comment bufsiz header (Open cs off) \<noteq> Undefined \<and>
    (128 \<le> length (drop off cs) \<and> 0 \<notin> set (take 128 (drop off cs)) \<longrightarrow>
       read_loop 128 (Open cs off) (replicate 128 None) (0 :: u8) =
         Cont (Open cs (off + 128), map Some (take 128 (drop off cs)), 128) \<and>
       store (map Some (take 128 (drop off cs))) 127 0 =
         Some (map Some (take 127 (drop off cs)) @ [Some 0]) \<and>
       c_string (map Some (take 127 (drop off cs)) @ [Some 0]) = Some (take 127 (drop off cs)) \<and>
       (flag_set header FNAME \<longrightarrow>
          read_filename header (Open cs (if flag_set header FEXTRA then off else off + 2)) =
            Cont ([Filename (take 127 (drop off cs))], Open cs (off + 128)))) \<and>
    (bufsiz \<le> length (drop off cs) \<and> 0 \<notin> set (take bufsiz (drop off cs)) \<longrightarrow>
       read_loop bufsiz (Open cs off) (replicate bufsiz None) (0 :: u32) =
         Cont (Open cs (off + bufsiz), map Some (take bufsiz (drop off cs)), of_nat bufsiz) \<and>
       store (map Some (take bufsiz (drop off cs))) (bufsiz - 1) 0 =
         Some (map Some (take (bufsiz - 1) (drop off cs)) @ [Some 0]) \<and>
       c_string (map Some (take (bufsiz - 1) (drop off cs)) @ [Some 0]) =
         Some (take (bufsiz - 1) (drop off cs)) \<and>
       (flag_set header FCOMMENT \<longrightarrow>
          read_comment bufsiz header (Open cs off) =
            Cont ([Comment (take (bufsiz - 1) (drop off cs))], Open cs (off + bufsiz))))"
proof (intro conjI impI)
  show "read_loop 128 (Open cs off) (replicate 128 None) (0 :: u8) \<noteq> Undefined"
    using read_loop_in_bounds[of 128 cs off, where 'a = 8] by simp
  show "\<forall>fd buf len. read_loop 128 (Open cs off) (replicate 128 None) (0 :: u8) = Cont (fd, buf, len)
        \<longrightarrow> length buf = 128 \<and> unat len \<le> 128"
    using read_loop_in_bounds[of 128 cs off, where 'a = 8] by simp
  show "read_loop bufsiz (Open cs off) (replicate bufsiz None) (0 :: u32) \<noteq> Undefined"
    using read_loop_in_bounds[of bufsiz cs off, where 'a = 32] assms by simp
  show "\<forall>fd buf len. read_loop bufsiz (Open cs off) (replicate bufsiz None) (0 :: u32) = Cont (fd, buf, len)
        \<longrightarrow> length buf = bufsiz \<and> unat len \<le> bufsiz"
    using read_loop_in_bounds[of bufsiz cs off, where 'a = 32] assms by simp
  show "read_filename header (Open cs off) \<noteq> Undefined"
    using read_filename_shape[of header cs off] by auto
  show "read_comment bufsiz header (Open cs off) \<noteq> Undefined"
  proof (cases "flag_set header FCOMMENT")
    case True
    then show ?thesis
      using assms by (simp add: read_comment_Open Let_def)
  next
    case False
    then show ?thesis
      by (simp add: read_comment_def)
  qed
next
  assume a: "128 \<le> length (drop off cs) \<and> 0 \<notin> set (take 128 (drop off cs))"
  then have full: "read_loop 128 (Open cs off) (replicate 128 None) (0 :: u8) =
      Cont (Open cs (off + 128), map Some (take 128 (drop off cs)), of_nat 128) \<and>
    store (map Some (take 128 (drop off cs))) (128 - 1) 0 =
      Some (map Some (take (128 - 1) (drop off cs)) @ [Some 0]) \<and>
    c_string (map Some (take (128 - 1) (drop off cs)) @ [Some 0]) =
      Some (take (128 - 1) (drop off cs))"
    by (intro read_loop_full) simp_all
  show "read_loop 128 (Open cs off) (replicate 128 None) (0 :: u8) =
         Cont (Open cs (off + 128), map Some (take 128 (drop off cs)), 128)"
    using full by simp
  show "store (map Some (take 128 (drop off cs))) 127 0 =
         Some (map Some (take 127 (drop off cs)) @ [Some 0])"
    using full by simp
  show "c_string (map Some (take 127 (drop off cs)) @ [Some 0]) = Some (take 127 (drop off cs))"
    using full by simp
  have z: "\<not> length (takeWhile (\<lambda>b. b \<noteq> 0) (drop off cs)) < 128"
    using a by (intro no_zero_takeWhile) simp_all
  {
    assume f: "flag_set header FNAME"
    have "(if \<not> flag_set header FEXTRA \<and> 2 \<le> (if flag_set header FEXTRA then off else off + 2)
           then (if flag_set header FEXTRA then off else off + 2) - 2
           else (if flag_set header FEXTRA then off else off + 2)) = off"
      by simp
    then show "read_filename header (Open cs (if flag_set header FEXTRA then off else off + 2)) =
            Cont ([Filename (take 127 (drop off cs))], Open cs (off + 128))"
      using a z by (simp only: read_filename_Open[OF f] Let_def) simp
  }
next
  assume a: "bufsiz \<le> length (drop off cs) \<and> 0 \<notin> set (take bufsiz (drop off cs))"
  then have full: "read_loop bufsiz (Open cs off) (replicate bufsiz None) (0 :: u32) =
      Cont (Open cs (off + bufsiz), map Some (take bufsiz (drop off cs)), of_nat bufsiz) \<and>
    store (map Some (take bufsiz (drop off cs))) (bufsiz - 1) 0 =
      Some (map Some (take (bufsiz - 1) (drop off cs)) @ [Some 0]) \<and>
    c_string (map Some (take (bufsiz - 1) (drop off cs)) @ [Some 0]) =
      Some (take (bufsiz - 1) (drop off cs))"
    using assms by (intro read_loop_full) simp_all
  show "read_loop bufsiz (Open cs off) (replicate bufsiz None) (0 :: u32) =
         Cont (Open cs (off + bufsiz), map Some (take bufsiz (drop off cs)), of_nat bufsiz)"
    using full by simp
  show "store (map Some (take bufsiz (drop off cs))) (bufsiz - 1) 0 =
         Some (map Some (take (bufsiz - 1) (drop off cs)) @ [Some 0])"
    using full by simp
  show "c_string (map Some (take (bufsiz - 1) (drop off cs)) @ [Some 0]) =
         Some (take (bufsiz - 1) (drop off cs))"
    using full by simp
  have z: "\<not> length (takeWhile (\<lambda>b. b \<noteq> 0) (drop off cs)) < bufsiz"
    using a by (intro no_zero_takeWhile) simp_all
  {
    assume f: "flag_set header FCOMMENT"
    show "read_comment bufsiz header (Open cs off) =
            Cont ([Comment (take (bufsiz - 1) (drop off cs))], Open cs (off + bufsiz))"
      using a z by (simp only: read_comment_Open[OF f assms] Let_def) simp
  }
qed

text \<open>Claim C10 at a concrete input: 9000 bytes \<open>0x41\<close>, \<open>bufsiz = 8192\<close>.\<close>

theorem C10_string_buffers_witness:
  "(0 :: nat) < 8192 \<and> (8192 :: nat) < 2 ^ 32 \<and>
   128 \<le> length (drop 10 (replicate 9000 (0x41 :: u8))) \<and>
   0 \<notin> set (take 128 (drop 10 (replicate 9000 (0x41 :: u8)))) \<and>
   8192 \<le> length (drop 10 (replicate 9000 (0x41 :: u8))) \<and>
   0 \<notin> set (take 8192 (drop 10 (replicate 9000 (0x41 :: u8)))) \<and>
   flag_set \<lparr> id1 = 0x1f, id2 = 0x8b, cm = 8, flag = 0x18, mtime = 0, xfl = 0, os = 3, xlen = 0x4141 \<rparr> FNAME \<and>
   flag_set \<lparr> id1 = 0x1f, id2 = 0x8b, cm = 8, flag = 0x18, mtime = 0, xfl = 0, os = 3, xlen = 0x4141 \<rparr> FCOMMENT \<and>
   read_loop 128 (Open (replicate 9000 0x41) 10) (replicate 128 None) (0 :: u8) =
     Cont (Open (replicate 9000 0x41) 138, replicate 128 (Some 0x41), 128) \<and>
   read_filename \<lparr> id1 = 0x1f, id2 = 0x8b, cm = 8, flag = 0x18, mtime = 0, xfl = 0, os = 3, xlen = 0x4141 \<rparr>
       (Open (replicate 9000 0x41) 12) =
     Cont ([Filename (replicate 127 0x41)], Open (replicate 9000 0x41) 138) \<and>
   read_loop 8192 (Open (replicate 9000 0x41) 10) (replicate 8192 None) (0 :: u32) =
     Cont (Open (replicate 9000 0x41) 8202, replicate 8192 (Some 0x41), 8192) \<and>
   read_comment 8192 \<lparr> id1 = 0x1f, id2 = 0x8b, cm = 8, flag = 0x18, mtime = 0, xfl = 0, os = 3, xlen = 0x4141 \<rparr>
       (Open (replicate 9000 0x41) 10) =
     Cont ([Comment (replicate 8191 0x41)], Open (replicate 9000 0x41) 8202)"
  using C10_string_buffers [of 8192 "replicate 9000 0x41" 10
      "\<lparr> id1 = 0x1f, id2 = 0x8b, cm = 8, flag = 0x18, mtime = 0, xfl = 0, os = 3, xlen = 0x4141 \<rparr>"]
  by (simp add: flag_set_def FNAME_def FEXTRA_def FCOMMENT_def)

text \<open>
  Claim C2. For every header, whatever its flag byte: a branch whose flag bit is unset does
  nothing, it prints nothing and leaves the descriptor, and so the file offset, as it was.
  When the optional fields have all been read, the fields read are exactly those whose bit is
  set, in the order extra field, filename, comment, header checksum; the same holds for the
  program up to the trailer, with the flag byte taken from the file. When reading stops at a
  field that the stream cuts short, the fields read before are the set ones that precede it
  in that order.
\<close>

theorem C2_fields_follow_flags:
  "(\<not> flag_set header FEXTRA \<longrightarrow> read_extra header fd = Cont ([], fd)) \<and>
   (\<not> flag_set header FNAME \<longrightarrow> read_filename header fd = Cont ([], fd)) \<and>
   (\<not> flag_set header FCOMMENT \<longrightarrow> read_comment bufsiz header fd = Cont ([], fd)) \<and>
   (\<not> flag_set header FHCRC \<longrightarrow> read_hcrc header fd = Cont ([], fd)) \<and>
   (\<forall>out fd'. optional_fields bufsiz header (Open cs off) = Cont (out, fd') \<longrightarrow>
      fields_read out =
        filter (\<lambda>f. flag_set header (field_flag f)) [ExtraF, NameF, CommentF, HcrcF]) \<and>
   (\<forall>out fd'. optional_fields bufsiz header (Open cs off) = Exit out fd' \<longrightarrow>
      (\<exists>rest. rest \<noteq> [] \<and>
         filter (\<lambda>f. flag_set header (field_flag f)) [ExtraF, NameF, CommentF, HcrcF] =
           fields_read out @ rest)) \<and>
   (\<forall>out fd'. parse_front bufsiz (Some cs) = Cont (out, fd') \<longrightarrow>
      fields_read out =
        filter (\<lambda>f. flag_set (header_of (take 12 cs)) (field_flag f)) [ExtraF, NameF, CommentF, HcrcF])"
proof (intro conjI allI impI)
  fix out fd'
  assume "optional_fields bufsiz header (Open cs off) = Exit out fd'"
  from optional_fields_Exit[OF this]
  show "\<exists>rest. rest \<noteq> [] \<and>
         filter (\<lambda>f. flag_set header (field_flag f)) [ExtraF, NameF, CommentF, HcrcF] =
           fields_read out @ rest"
    by blast
qed (simp_all add: read_extra_def read_filename_def read_comment_def read_hcrc_def
       optional_fields_Cont parse_front_Cont)

text \<open>
  Claim C2 at concrete inputs: all five flag bits set, with a 3-byte extra field; no bit set;
  FEXTRA and FNAME set, with the stream ending inside the filename.
\<close>

theorem C2_fields_follow_flags_witness:
  "optional_fields 8192 \<lparr> id1 = 0x1f, id2 = 0x8b, cm = 8, flag = 0x1f, mtime = 0, xfl = 0, os = 3, xlen = 3 \<rparr>
     (Open [0x1f, 0x8b, 8, 0x1f, 0, 0, 0, 0, 0, 3, 3, 0, 9, 9, 9, 0x61, 0, 0x62, 0, 5, 6, 3, 0, 0xde, 0xad, 0xbe, 0xef, 0x0a, 0, 0, 0] 12) =
     Cont ([ExtraField [9, 9, 9], Filename [0x61], Comment [0x62], HeaderChecksum 0x0605],
           Open [0x1f, 0x8b, 8, 0x1f, 0, 0, 0, 0, 0, 3, 3, 0, 9, 9, 9, 0x61, 0, 0x62, 0, 5, 6, 3, 0, 0xde, 0xad, 0xbe, 0xef, 0x0a, 0, 0, 0] 21) \<and>
   fields_read [ExtraField [9, 9, 9], Filename [0x61], Comment [0x62], HeaderChecksum 0x0605] =
     [ExtraF, NameF, CommentF, HcrcF] \<and>
   filter (\<lambda>f. flag_set \<lparr> id1 = 0x1f, id2 = 0x8b, cm = 8, flag = 0x1f, mtime = 0, xfl = 0, os = 3, xlen = 3 \<rparr> (field_flag f)) [ExtraF, NameF, CommentF, HcrcF] =
     [ExtraF, NameF, CommentF, HcrcF] \<and>
   \<not> flag_set \<lparr> id1 = 0x1f, id2 = 0x8b, cm = 8, flag = 0, mtime = 0, xfl = 0, os = 3, xlen = 3 \<rparr> FEXTRA \<and>
   \<not> flag_set \<lparr> id1 = 0x1f, id2 = 0x8b, cm = 8, flag = 0, mtime = 0, xfl = 0, os = 3, xlen = 3 \<rparr> FNAME \<and>
   \<not> flag_set \<lparr> id1 = 0x1f, id2 = 0x8b, cm = 8, flag = 0, mtime = 0, xfl = 0, os = 3, xlen = 3 \<rparr> FCOMMENT \<and>
   \<not> flag_set \<lparr> id1 = 0x1f, id2 = 0x8b, cm = 8, flag = 0, mtime = 0, xfl = 0, os = 3, xlen = 3 \<rparr> FHCRC \<and>
   read_extra \<lparr> id1 = 0x1f, id2 = 0x8b, cm = 8, flag = 0, mtime = 0, xfl = 0, os = 3, xlen = 3 \<rparr> (Open [0x1f, 0x8b, 8, 0, 0, 0, 0, 0, 0, 3, 3, 0, 0xde, 0xad, 0xbe, 0xef, 0x0a, 0, 0, 0] 12) = Cont ([], Open [0x1f, 0x8b, 8, 0, 0, 0, 0, 0, 0, 3, 3, 0, 0xde, 0xad, 0xbe, 0xef, 0x0a, 0, 0, 0] 12) \<and>
   read_filename \<lparr> id1 = 0x1f, id2 = 0x8b, cm = 8, flag = 0, mtime = 0, xfl = 0, os = 3, xlen = 3 \<rparr> (Open [0x1f, 0x8b, 8, 0, 0, 0, 0, 0, 0, 3, 3, 0, 0xde, 0xad, 0xbe, 0xef, 0x0a, 0, 0, 0] 12) = Cont ([], Open [0x1f, 0x8b, 8, 0, 0, 0, 0, 0, 0, 3, 3, 0, 0xde, 0xad, 0xbe, 0xef, 0x0a, 0, 0, 0] 12) \<and>
   read_comment 8192 \<lparr> id1 = 0x1f, id2 = 0x8b, cm = 8, flag = 0, mtime = 0, xfl = 0, os = 3, xlen = 3 \<rparr> (Open [0x1f, 0x8b, 8, 0, 0, 0, 0, 0, 0, 3, 3, 0, 0xde, 0xad, 0xbe, 0xef, 0x0a, 0, 0, 0] 12) = Cont ([], Open [0x1f, 0x8b, 8, 0, 0, 0, 0, 0, 0, 3, 3, 0, 0xde, 0xad, 0xbe, 0xef, 0x0a, 0, 0, 0] 12) \<and>
   read_hcrc \<lparr> id1 = 0x1f, id2 = 0x8b, cm = 8, flag = 0, mtime = 0, xfl = 0, os = 3, xlen = 3 \<rparr> (Open [0x1f, 0x8b, 8, 0, 0, 0, 0, 0, 0, 3, 3, 0, 0xde, 0xad, 0xbe, 0xef, 0x0a, 0, 0, 0] 12) = Cont ([], Open [0x1f, 0x8b, 8, 0, 0, 0, 0, 0, 0, 3, 3, 0, 0xde, 0xad, 0xbe, 0xef, 0x0a, 0, 0, 0] 12) \<and>
   optional_fields 8192 \<lparr> id1 = 0x1f, id2 = 0x8b, cm = 8, flag = 0x0c, mtime = 0, xfl = 0, os = 3, xlen = 2 \<rparr>
     (Open [0x1f, 0x8b, 8, 0x0c, 0, 0, 0, 0, 0, 3, 2, 0, 9, 9, 0x61, 0x62] 12) =
     Exit [ExtraField [9, 9], TooFewFilename] Closed \<and>
   filter (\<lambda>f. flag_set \<lparr> id1 = 0x1f, id2 = 0x8b, cm = 8, flag = 0x0c, mtime = 0, xfl = 0, os = 3, xlen = 2 \<rparr> (field_flag f)) [ExtraF, NameF, CommentF, HcrcF] =
     fields_read [ExtraField [9, 9], TooFewFilename] @ [NameF]"
proof -
  have a: "optional_fields 8192 \<lparr> id1 = 0x1f, id2 = 0x8b, cm = 8, flag = 0x1f, mtime = 0, xfl = 0, os = 3, xlen = 3 \<rparr>
     (Open [0x1f, 0x8b, 8, 0x1f, 0, 0, 0, 0, 0, 3, 3, 0, 9, 9, 9, 0x61, 0, 0x62, 0, 5, 6, 3, 0, 0xde, 0xad, 0xbe, 0xef, 0x0a, 0, 0, 0] 12) =
     Cont ([ExtraField [9, 9, 9], Filename [0x61], Comment [0x62], HeaderChecksum 0x0605],
           Open [0x1f, 0x8b, 8, 0x1f, 0, 0, 0, 0, 0, 3, 3, 0, 9, 9, 9, 0x61, 0, 0x62, 0, 5, 6, 3, 0, 0xde, 0xad, 0xbe, 0xef, 0x0a, 0, 0, 0] 21)"
    by code_simp
  have c: "optional_fields 8192 \<lparr> id1 = 0x1f, id2 = 0x8b, cm = 8, flag = 0x0c, mtime = 0, xfl = 0, os = 3, xlen = 2 \<rparr>
     (Open [0x1f, 0x8b, 8, 0x0c, 0, 0, 0, 0, 0, 3, 2, 0, 9, 9, 0x61, 0x62] 12) =
     Exit [ExtraField [9, 9], TooFewFilename] Closed"
    by code_simp
  have f: "\<not> flag_set \<lparr> id1 = 0x1f, id2 = 0x8b, cm = 8, flag = 0, mtime = 0, xfl = 0, os = 3, xlen = 3 \<rparr> FEXTRA"
    "\<not> flag_set \<lparr> id1 = 0x1f, id2 = 0x8b, cm = 8, flag = 0, mtime = 0, xfl = 0, os = 3, xlen = 3 \<rparr> FNAME"
    "\<not> flag_set \<lparr> id1 = 0x1f, id2 = 0x8b, cm = 8, flag = 0, mtime = 0, xfl = 0, os = 3, xlen = 3 \<rparr> FCOMMENT"
    "\<not> flag_set \<lparr> id1 = 0x1f, id2 = 0x8b, cm = 8, flag = 0, mtime = 0, xfl = 0, os = 3, xlen = 3 \<rparr> FHCRC"
    by (simp_all add: flag_set_def FEXTRA_def FNAME_def FCOMMENT_def FHCRC_def)
  have g: "filter (\<lambda>f. flag_set \<lparr> id1 = 0x1f, id2 = 0x8b, cm = 8, flag = 0x0c, mtime = 0, xfl = 0, os = 3, xlen = 2 \<rparr> (field_flag f)) [ExtraF, NameF, CommentF, HcrcF] = [ExtraF, NameF]"
    by (simp add: flag_set_def FEXTRA_def FNAME_def FCOMMENT_def FHCRC_def)
  have g1: "filter (\<lambda>f. flag_set \<lparr> id1 = 0x1f, id2 = 0x8b, cm = 8, flag = 0x1f, mtime = 0, xfl = 0, os = 3, xlen = 3 \<rparr> (field_flag f)) [ExtraF, NameF, CommentF, HcrcF] = [ExtraF, NameF, CommentF, HcrcF]"
    by (simp add: flag_set_def FEXTRA_def FNAME_def FCOMMENT_def FHCRC_def)
  have r1: "fields_read [ExtraField [9, 9, 9], Filename [0x61], Comment [0x62], HeaderChecksum 0x0605] =
      filter (\<lambda>f. flag_set \<lparr> id1 = 0x1f, id2 = 0x8b, cm = 8, flag = 0x1f, mtime = 0, xfl = 0, os = 3, xlen = 3 \<rparr> (field_flag f)) [ExtraF, NameF, CommentF, HcrcF]"
    using a C2_fields_follow_flags [of "\<lparr> id1 = 0x1f, id2 = 0x8b, cm = 8, flag = 0x1f, mtime = 0, xfl = 0, os = 3, xlen = 3 \<rparr>" "Open [0x1f, 0x8b, 8, 0x1f, 0, 0, 0, 0, 0, 3, 3, 0, 9, 9, 9, 0x61, 0, 0x62, 0, 5, 6, 3, 0, 0xde, 0xad, 0xbe, 0xef, 0x0a, 0, 0, 0] 12" 8192 "[0x1f, 0x8b, 8, 0x1f, 0, 0, 0, 0, 0, 3, 3, 0, 9, 9, 9, 0x61, 0, 0x62, 0, 5, 6, 3, 0, 0xde, 0xad, 0xbe, 0xef, 0x0a, 0, 0, 0]" 12]
    by blast
  have r0: "read_extra \<lparr> id1 = 0x1f, id2 = 0x8b, cm = 8, flag = 0, mtime = 0, xfl = 0, os = 3, xlen = 3 \<rparr> (Open [0x1f, 0x8b, 8, 0, 0, 0, 0, 0, 0, 3, 3, 0, 0xde, 0xad, 0xbe, 0xef, 0x0a, 0, 0, 0] 12) = Cont ([], Open [0x1f, 0x8b, 8, 0, 0, 0, 0, 0, 0, 3, 3, 0, 0xde, 0xad, 0xbe, 0xef, 0x0a, 0, 0, 0] 12)"
    "read_filename \<lparr> id1 = 0x1f, id2 = 0x8b, cm = 8, flag = 0, mtime = 0, xfl = 0, os = 3, xlen = 3 \<rparr> (Open [0x1f, 0x8b, 8, 0, 0, 0, 0, 0, 0, 3, 3, 0, 0xde, 0xad, 0xbe, 0xef, 0x0a, 0, 0, 0] 12) = Cont ([], Open [0x1f, 0x8b, 8, 0, 0, 0, 0, 0, 0, 3, 3, 0, 0xde, 0xad, 0xbe, 0xef, 0x0a, 0, 0, 0] 12)"
    "read_comment 8192 \<lparr> id1 = 0x1f, id2 = 0x8b, cm = 8, flag = 0, mtime = 0, xfl = 0, os = 3, xlen = 3 \<rparr> (Open [0x1f, 0x8b, 8, 0, 0, 0, 0, 0, 0, 3, 3, 0, 0xde, 0xad, 0xbe, 0xef, 0x0a, 0, 0, 0] 12) = Cont ([], Open [0x1f, 0x8b, 8, 0, 0, 0, 0, 0, 0, 3, 3, 0, 0xde, 0xad, 0xbe, 0xef, 0x0a, 0, 0, 0] 12)"
    "read_hcrc \<lparr> id1 = 0x1f, id2 = 0x8b, cm = 8, flag = 0, mtime = 0, xfl = 0, os = 3, xlen = 3 \<rparr> (Open [0x1f, 0x8b, 8, 0, 0, 0, 0, 0, 0, 3, 3, 0, 0xde, 0xad, 0xbe, 0xef, 0x0a, 0, 0, 0] 12) = Cont ([], Open [0x1f, 0x8b, 8, 0, 0, 0, 0, 0, 0, 3, 3, 0, 0xde, 0xad, 0xbe, 0xef, 0x0a, 0, 0, 0] 12)"
    using f C2_fields_follow_flags [of "\<lparr> id1 = 0x1f, id2 = 0x8b, cm = 8, flag = 0, mtime = 0, xfl = 0, os = 3, xlen = 3 \<rparr>" "Open [0x1f, 0x8b, 8, 0, 0, 0, 0, 0, 0, 3, 3, 0, 0xde, 0xad, 0xbe, 0xef, 0x0a, 0, 0, 0] 12" 8192 "[0x1f, 0x8b, 8, 0, 0, 0, 0, 0, 0, 3, 3, 0, 0xde, 0xad, 0xbe, 0xef, 0x0a, 0, 0, 0]" 12]
    by blast+
  have rc: "\<exists>rest. rest \<noteq> [] \<and> filter (\<lambda>f. flag_set \<lparr> id1 = 0x1f, id2 = 0x8b, cm = 8, flag = 0x0c, mtime = 0, xfl = 0, os = 3, xlen = 2 \<rparr> (field_flag f)) [ExtraF, NameF, CommentF, HcrcF] =
      fields_read [ExtraField [9, 9], TooFewFilename] @ rest"
    using c C2_fields_follow_flags [of "\<lparr> id1 = 0x1f, id2 = 0x8b, cm = 8, flag = 0x0c, mtime = 0, xfl = 0, os = 3, xlen = 2 \<rparr>" "Open [0x1f, 0x8b, 8, 0x0c, 0, 0, 0, 0, 0, 3, 2, 0, 9, 9, 0x61, 0x62] 12" 8192 "[0x1f, 0x8b, 8, 0x0c, 0, 0, 0, 0, 0, 3, 2, 0, 9, 9, 0x61, 0x62]" 12]
    by blast
  have gc: "filter (\<lambda>f. flag_set \<lparr> id1 = 0x1f, id2 = 0x8b, cm = 8, flag = 0x0c, mtime = 0, xfl = 0, os = 3, xlen = 2 \<rparr> (field_flag f)) [ExtraF, NameF, CommentF, HcrcF] =
     fields_read [ExtraField [9, 9], TooFewFilename] @ [NameF]"
    using rc unfolding g by simp
  show ?thesis
    by (intro conjI a c f r0 gc) (simp_all only: r1 g1)
qed

section \<open>Claims about the trailer\<close>

text \<open>
  Claim C6. Two inputs that both get as far as the trailer and agree on their last 8 bytes
  give the same trailer: whatever the flags and the optional fields were, and wherever they
  left the file offset, the program seeks to 8 bytes before the end, reads the first four of
  those bytes as the checksum and the last four as the size, closes the descriptor and
  returns 0.
\<close>

theorem C6_trailer_independent_of_header:
  assumes "parse_front bufsiz (Some a) = Cont (out_a, fd_a)"
    and "parse_front bufsiz' (Some b) = Cont (out_b, fd_b)"
    and "drop (length a - 8) a = drop (length b - 8) b"
  shows "\<exists>b0 b1 b2 b3 b4 b5 b6 b7.
    drop (length a - 8) a = [b0, b1, b2, b3, b4, b5, b6, b7] \<and>
    read_trailer fd_a = Cont ([Checksum (le32 b0 b1 b2 b3), Isize (le32 b4 b5 b6 b7)], Closed) \<and>
    read_trailer fd_b = Cont ([Checksum (le32 b0 b1 b2 b3), Isize (le32 b4 b5 b6 b7)], Closed) \<and>
    main bufsiz (Some a) =
      Some \<lparr> printed = out_a @ [Checksum (le32 b0 b1 b2 b3), Isize (le32 b4 b5 b6 b7)],
             fd_final = Closed, retval = 0 \<rparr> \<and>
    main bufsiz' (Some b) =
      Some \<lparr> printed = out_b @ [Checksum (le32 b0 b1 b2 b3), Isize (le32 b4 b5 b6 b7)],
             fd_final = Closed, retval = 0 \<rparr>"
proof -
  from parse_front_Cont[OF assms(1)] obtain off_a where la: "12 \<le> length a" and fa: "fd_a = Open a off_a"
    by blast
  from parse_front_Cont[OF assms(2)] obtain off_b where lb: "12 \<le> length b" and fb: "fd_b = Open b off_b"
    by blast
  from la obtain b0 b1 b2 b3 b4 b5 b6 b7 where
    da: "drop (length a - 8) a = [b0, b1, b2, b3, b4, b5, b6, b7]"
    using last_eight[of a] by auto
  then have db: "drop (length b - 8) b = [b0, b1, b2, b3, b4, b5, b6, b7]"
    using assms(3) by simp
  have ta: "read_trailer fd_a = Cont ([Checksum (le32 b0 b1 b2 b3), Isize (le32 b4 b5 b6 b7)], Closed)"
    unfolding fa using da by (rule read_trailer_Open)
  have tb: "read_trailer fd_b = Cont ([Checksum (le32 b0 b1 b2 b3), Isize (le32 b4 b5 b6 b7)], Closed)"
    unfolding fb using db by (rule read_trailer_Open)
  show ?thesis
    using da ta tb main_of_parse_front[OF assms(1) ta] main_of_parse_front[OF assms(2) tb]
    by blast
qed

text \<open>
  Claim C6 at two concrete inputs with the same last 8 bytes: one without flags, one with
  FNAME set and the name \<open>test.txt\<close>.
\<close>

theorem C6_trailer_independent_of_header_witness:
  "parse_front 8192 (Some [0x1f, 0x8b, 8, 0, 0, 0, 0, 0, 0, 3, 3, 0, 0xde, 0xad, 0xbe, 0xef, 0x0a, 0, 0, 0]) =
     Cont ([ValidGzip, StdDeflate, Xfl 0, Os ''UNIX''],
           Open [0x1f, 0x8b, 8, 0, 0, 0, 0, 0, 0, 3, 3, 0, 0xde, 0xad, 0xbe, 0xef, 0x0a, 0, 0, 0] 12) \<and>
   parse_front 8192 (Some [0x1f, 0x8b, 8, 8, 0, 0, 0, 0, 0, 3, 0x74, 0x65, 0x73, 0x74, 0x2e, 0x74, 0x78, 0x74, 0, 3, 0, 0xde, 0xad, 0xbe, 0xef, 0x0a, 0, 0, 0]) =
     Cont ([ValidGzip, StdDeflate, FlagsSet [''FNAME''], Xfl 0, Os ''UNIX'', Filename [0x74, 0x65, 0x73, 0x74, 0x2e, 0x74, 0x78, 0x74]],
           Open [0x1f, 0x8b, 8, 8, 0, 0, 0, 0, 0, 3, 0x74, 0x65, 0x73, 0x74, 0x2e, 0x74, 0x78, 0x74, 0, 3, 0, 0xde, 0xad, 0xbe, 0xef, 0x0a, 0, 0, 0] 19) \<and>
   drop (length [0x1f, 0x8b, 8, 0, 0, 0, 0, 0, 0, 3, 3, 0, 0xde, 0xad, 0xbe, 0xef, 0x0a, 0, 0, 0] - 8)
        [0x1f, 0x8b, 8, 0, 0, 0, 0, 0, 0, 3, 3, 0, 0xde, 0xad, 0xbe, 0xef, 0x0a, 0, 0, 0] =
   drop (length [0x1f, 0x8b, 8, 8, 0, 0, 0, 0, 0, 3, 0x74, 0x65, 0x73, 0x74, 0x2e, 0x74, 0x78, 0x74, 0, 3, 0, 0xde, 0xad, 0xbe, 0xef, 0x0a, 0, 0, 0] - 8)
        [0x1f, 0x8b, 8, 8, 0, 0, 0, 0, 0, 3, 0x74, 0x65, 0x73, 0x74, 0x2e, 0x74, 0x78, 0x74, 0, 3, 0, 0xde, 0xad, 0xbe, 0xef, 0x0a, 0, 0, 0] \<and>
   read_trailer (Open [0x1f, 0x8b, 8, 0, 0, 0, 0, 0, 0, 3, 3, 0, 0xde, 0xad, 0xbe, 0xef, 0x0a, 0, 0, 0] 12) =
     Cont ([Checksum 0xefbeadde, Isize 10], Closed) \<and>
   read_trailer (Open [0x1f, 0x8b, 8, 8, 0, 0, 0, 0, 0, 3, 0x74, 0x65, 0x73, 0x74, 0x2e, 0x74, 0x78, 0x74, 0, 3, 0, 0xde, 0xad, 0xbe, 0xef, 0x0a, 0, 0, 0] 19) =
     Cont ([Checksum 0xefbeadde, Isize 10], Closed) \<and>
   main 8192 (Some [0x1f, 0x8b, 8, 0, 0, 0, 0, 0, 0, 3, 3, 0, 0xde, 0xad, 0xbe, 0xef, 0x0a, 0, 0, 0]) =
     Some \<lparr> printed = [ValidGzip, StdDeflate, Xfl 0, Os ''UNIX''] @ [Checksum 0xefbeadde, Isize 10],
            fd_final = Closed, retval = 0 \<rparr> \<and>
   main 8192 (Some [0x1f, 0x8b, 8, 8, 0, 0, 0, 0, 0, 3, 0x74, 0x65, 0x73, 0x74, 0x2e, 0x74, 0x78, 0x74, 0, 3, 0, 0xde, 0xad, 0xbe, 0xef, 0x0a, 0, 0, 0]) =
     Some \<lparr> printed = [ValidGzip, StdDeflate, FlagsSet [''FNAME''], Xfl 0, Os ''UNIX'', Filename [0x74, 0x65, 0x73, 0x74, 0x2e, 0x74, 0x78, 0x74]] @
                      [Checksum 0xefbeadde, Isize 10],
            fd_final = Closed, retval = 0 \<rparr>"
proof -
  have pa: "parse_front 8192 (Some [0x1f, 0x8b, 8, 0, 0, 0, 0, 0, 0, 3, 3, 0, 0xde, 0xad, 0xbe, 0xef, 0x0a, 0, 0, 0]) =
     Cont ([ValidGzip, StdDeflate, Xfl 0, Os ''UNIX''],
           Open [0x1f, 0x8b, 8, 0, 0, 0, 0, 0, 0, 3, 3, 0, 0xde, 0xad, 0xbe, 0xef, 0x0a, 0, 0, 0] 12)"
    by code_simp
  have pb: "parse_front 8192 (Some [0x1f, 0x8b, 8, 8, 0, 0, 0, 0, 0, 3, 0x74, 0x65, 0x73, 0x74, 0x2e, 0x74, 0x78, 0x74, 0, 3, 0, 0xde, 0xad, 0xbe, 0xef, 0x0a, 0, 0, 0]) =
     Cont ([ValidGzip, StdDeflate, FlagsSet [''FNAME''], Xfl 0, Os ''UNIX'', Filename [0x74, 0x65, 0x73, 0x74, 0x2e, 0x74, 0x78, 0x74]],
           Open [0x1f, 0x8b, 8, 8, 0, 0, 0, 0, 0, 3, 0x74, 0x65, 0x73, 0x74, 0x2e, 0x74, 0x78, 0x74, 0, 3, 0, 0xde, 0xad, 0xbe, 0xef, 0x0a, 0, 0, 0] 19)"
    by code_simp
  have eq: "drop (length [0x1f, 0x8b, 8, 0, 0, 0, 0, 0, 0, 3, 3, 0, 0xde, 0xad, 0xbe, 0xef, 0x0a, 0, 0, 0] - 8)
        [0x1f, 0x8b, 8, 0, 0, 0, 0, 0, 0, 3, 3, 0, 0xde, 0xad, 0xbe, 0xef, 0x0a, 0, 0, 0] =
   drop (length [0x1f, 0x8b, 8, 8, 0, 0, 0, 0, 0, 3, 0x74, 0x65, 0x73, 0x74, 0x2e, 0x74, 0x78, 0x74, 0, 3, 0, 0xde, 0xad, 0xbe, 0xef, 0x0a, 0, 0, 0] - 8)
        [0x1f, 0x8b, 8, 8, 0, 0, 0, 0, 0, 3, 0x74, 0x65, 0x73, 0x74, 0x2e, 0x74, 0x78, 0x74, 0, 3, 0, 0xde, 0xad, 0xbe, 0xef, 0x0a, 0, 0, 0]"
    by simp
  have d: "drop (length [0x1f, 0x8b, 8, 0, 0, 0, 0, 0, 0, 3, 3, 0, 0xde, 0xad, 0xbe, 0xef, 0x0a, 0, 0, 0] - 8)
        [0x1f, 0x8b, 8, 0, 0, 0, 0, 0, 0, 3, 3, 0, 0xde, 0xad, 0xbe, 0xef, 0x0a, 0, 0, 0] = [0xde, 0xad, 0xbe, 0xef, 0x0a, 0, 0, 0]"
    by simp
  have w: "le32 0xde 0xad 0xbe 0xef = 0xefbeadde" "le32 0x0a 0 0 0 = 10"
    by (simp_all add: le32_def)
  from C6_trailer_independent_of_header [OF pa pb eq]
  have "read_trailer (Open [0x1f, 0x8b, 8, 0, 0, 0, 0, 0, 0, 3, 3, 0, 0xde, 0xad, 0xbe, 0xef, 0x0a, 0, 0, 0] 12) =
     Cont ([Checksum 0xefbeadde, Isize 10], Closed) \<and>
   read_trailer (Open [0x1f, 0x8b, 8, 8, 0, 0, 0, 0, 0, 3, 0x74, 0x65, 0x73, 0x74, 0x2e, 0x74, 0x78, 0x74, 0, 3, 0, 0xde, 0xad, 0xbe, 0xef, 0x0a, 0, 0, 0] 19) =
     Cont ([Checksum 0xefbeadde, Isize 10], Closed) \<and>
   main 8192 (Some [0x1f, 0x8b, 8, 0, 0, 0, 0, 0, 0, 3, 3, 0, 0xde, 0xad, 0xbe, 0xef, 0x0a, 0, 0, 0]) =
     Some \<lparr> printed = [ValidGzip, StdDeflate, Xfl 0, Os ''UNIX''] @ [Checksum 0xefbeadde, Isize 10],
            fd_final = Closed, retval = 0 \<rparr> \<and>
   main 8192 (Some [0x1f, 0x8b, 8, 8, 0, 0, 0, 0, 0, 3, 0x74, 0x65, 0x73, 0x74, 0x2e, 0x74, 0x78, 0x74, 0, 3, 0, 0xde, 0xad, 0xbe, 0xef, 0x0a, 0, 0, 0]) =
     Some \<lparr> printed = [ValidGzip, StdDeflate, FlagsSet [''FNAME''], Xfl 0, Os ''UNIX'', Filename [0x74, 0x65, 0x73, 0x74, 0x2e, 0x74, 0x78, 0x74]] @
                      [Checksum 0xefbeadde, Isize 10],
            fd_final = Closed, retval = 0 \<rparr>"
    unfolding d by (auto simp: w)
  then show ?thesis
    using pa pb eq by (simp only: simp_thms)
qed

end
